theory Spec2Isabelle
  imports Complex_Main "HOL-Library.Word" "HOL-Library.Log_Nat"
begin

section \<open>Binary floating point as the C code uses it\<close>

text \<open>
  The sketch \<^verbatim>\<open>singen.ino\<close> computes the timer period in \<^verbatim>\<open>float\<close> and
  \<^verbatim>\<open>double\<close>. A floating-point value is a sign, an integer significand and a binary
  exponent: \<open>Finite s m e\<close> stands for \<open>(-1)^s * m * 2^e\<close>. A format is given by its
  precision \<open>p\<close> (bits of the significand) and the least and greatest exponent of the unit in
  the last place: \<open>24, -149, 104\<close> for \<^verbatim>\<open>float\<close> (binary32) and \<open>53, -1074, 971\<close> for
  \<^verbatim>\<open>double\<close> (binary64). Every operation treats the infinities and NaN before it
  looks at a value, so \<open>mag\<close> and \<open>valof\<close> are only read on finite numbers.
\<close>

datatype fp = Finite bool int int | Infinity bool | NaN

fun mag :: "fp \<Rightarrow> real" where
  "mag (Finite s m e) = real_of_int m * 2 powi e"
| "mag (Infinity s) = 0"
| "mag NaN = 0"

fun valof :: "fp \<Rightarrow> real" where
  "valof (Finite s m e) = (if s then - (real_of_int m * 2 powi e) else real_of_int m * 2 powi e)"
| "valof (Infinity s) = 0"
| "valof NaN = 0"

fun is_float :: "fp \<Rightarrow> bool" where
  "is_float (Finite s m e) = (0 \<le> m \<and> m < 2 ^ 24 \<and> - 149 \<le> e \<and> e \<le> 104)"
| "is_float (Infinity s) = True"
| "is_float NaN = True"

text \<open>\<open>ilog2 x\<close> is the exponent of the binade of a positive \<open>x\<close>: \<open>2^k \<le> x < 2^(k+1)\<close>.\<close>

definition ilog2 :: "real \<Rightarrow> int" where
  "ilog2 x = (if 1 \<le> x then bitlen \<lfloor>x\<rfloor> - 1 else - bitlen (\<lceil>1 / x\<rceil> - 1))"

text \<open>Rounding to the nearest integer, ties to the even one (the IEEE 754 default mode).\<close>

definition rne :: "real \<Rightarrow> int" where
  "rne x = (let f = \<lfloor>x\<rfloor>; d = x - of_int f
            in if d < 1 / 2 then f else if 1 / 2 < d then f + 1
               else if even f then f else f + 1)"

text \<open>
  \<open>fp_round p emin emax s a\<close> rounds the magnitude \<open>a \<ge> 0\<close> with sign \<open>s\<close> into the
  format: to \<open>p\<close> significant bits in the normal range, to multiples of \<open>2^emin\<close> below
  it, to infinity when the rounded value exceeds the largest finite one.
\<close>

definition fp_round :: "nat \<Rightarrow> int \<Rightarrow> int \<Rightarrow> bool \<Rightarrow> real \<Rightarrow> fp" where
  "fp_round p emin emax s a =
     (if a = 0 then Finite s 0 0
      else let e = max emin (ilog2 a - (int p - 1));
               m = rne (a / 2 powi e)
           in if m = 2 ^ p then (if emax < e + 1 then Infinity s else Finite s (2 ^ (p - 1)) (e + 1))
              else if emax < e then Infinity s
              else Finite s m e)"

definition float_round :: "bool \<Rightarrow> real \<Rightarrow> fp" where
  "float_round = fp_round 24 (- 149) 104"

definition double_round :: "bool \<Rightarrow> real \<Rightarrow> fp" where
  "double_round = fp_round 53 (- 1074) 971"

fun fp_mul :: "(bool \<Rightarrow> real \<Rightarrow> fp) \<Rightarrow> fp \<Rightarrow> fp \<Rightarrow> fp" where
  "fp_mul rnd (Finite s m e) (Finite t n f) =
     rnd (s \<noteq> t) (mag (Finite s m e) * mag (Finite t n f))"
| "fp_mul rnd (Finite s m e) (Infinity t) = (if m = 0 then NaN else Infinity (s \<noteq> t))"
| "fp_mul rnd (Infinity s) (Finite t n f) = (if n = 0 then NaN else Infinity (s \<noteq> t))"
| "fp_mul rnd (Infinity s) (Infinity t) = Infinity (s \<noteq> t)"
| "fp_mul rnd NaN y = NaN"
| "fp_mul rnd x NaN = NaN"

fun fp_div :: "(bool \<Rightarrow> real \<Rightarrow> fp) \<Rightarrow> fp \<Rightarrow> fp \<Rightarrow> fp" where
  "fp_div rnd (Finite s m e) (Finite t n f) =
     (if n = 0 then (if m = 0 then NaN else Infinity (s \<noteq> t))
      else rnd (s \<noteq> t) (mag (Finite s m e) / mag (Finite t n f)))"
| "fp_div rnd (Finite s m e) (Infinity t) = Finite (s \<noteq> t) 0 0"
| "fp_div rnd (Infinity s) (Finite t n f) = Infinity (s \<noteq> t)"
| "fp_div rnd (Infinity s) (Infinity t) = NaN"
| "fp_div rnd NaN y = NaN"
| "fp_div rnd x NaN = NaN"

text \<open>The sum; an exact zero sum is \<open>+0\<close> unless both terms are negative.\<close>

fun fp_add :: "(bool \<Rightarrow> real \<Rightarrow> fp) \<Rightarrow> fp \<Rightarrow> fp \<Rightarrow> fp" where
  "fp_add rnd (Finite s m e) (Finite t n f) =
     (let v = valof (Finite s m e) + valof (Finite t n f)
      in if v = 0 then Finite (s \<and> t) 0 0 else rnd (v < 0) \<bar>v\<bar>)"
| "fp_add rnd (Finite s m e) (Infinity t) = Infinity t"
| "fp_add rnd (Infinity s) (Finite t n f) = Infinity s"
| "fp_add rnd (Infinity s) (Infinity t) = (if s = t then Infinity s else NaN)"
| "fp_add rnd NaN y = NaN"
| "fp_add rnd x NaN = NaN"

text \<open>The comparison \<^verbatim>\<open><=\<close>: false as soon as one side is a NaN.\<close>

fun fp_le :: "fp \<Rightarrow> fp \<Rightarrow> bool" where
  "fp_le (Finite s m e) (Finite t n f) = (valof (Finite s m e) \<le> valof (Finite t n f))"
| "fp_le (Finite s m e) (Infinity t) = (\<not> t)"
| "fp_le (Infinity s) (Finite t n f) = s"
| "fp_le (Infinity s) (Infinity t) = (s \<or> \<not> t)"
| "fp_le NaN y = False"
| "fp_le x NaN = False"

text \<open>Conversions. An \<^verbatim>\<open>int\<close> becomes a \<^verbatim>\<open>float\<close> or a \<^verbatim>\<open>double\<close> by rounding; a \<^verbatim>\<open>float\<close>
  becomes a \<^verbatim>\<open>double\<close> unchanged; a \<^verbatim>\<open>double\<close> becomes a \<^verbatim>\<open>float\<close> by rounding. A
  decimal literal is the \<^verbatim>\<open>double\<close> nearest to it.\<close>

definition float_of_int :: "int \<Rightarrow> fp" where
  "float_of_int n = float_round (n < 0) \<bar>real_of_int n\<bar>"

definition double_lit :: "real \<Rightarrow> fp" where
  "double_lit x = double_round (x < 0) \<bar>x\<bar>"

definition double_of_int :: "int \<Rightarrow> fp" where
  "double_of_int n = double_round (n < 0) \<bar>real_of_int n\<bar>"

fun float_of_double :: "fp \<Rightarrow> fp" where
  "float_of_double (Finite s m e) = float_round s (mag (Finite s m e))"
| "float_of_double (Infinity s) = Infinity s"
| "float_of_double NaN = NaN"

text \<open>
  The cast \<^verbatim>\<open>(uint64_t)\<close> of a \<^verbatim>\<open>double\<close> drops the fraction. C leaves the cast undefined
  when the truncated value is not a \<^verbatim>\<open>uint64_t\<close> (NaN, an infinity, \<open>-1\<close> or less,
  \<open>2^64\<close> or more): \<open>None\<close>.
\<close>

fun uint64_of_double :: "fp \<Rightarrow> 64 word option" where
  "uint64_of_double (Finite s m e) =
     (let t = \<lfloor>mag (Finite s m e)\<rfloor>
      in if s \<and> 1 \<le> t then None
         else if s then Some 0
         else if t < 2 ^ 64 then Some (word_of_int t) else None)"
| "uint64_of_double (Infinity s) = None"
| "uint64_of_double NaN = None"

section \<open>The timer period\<close>

text \<open>
  \<^verbatim>\<open>calculateUpdatePeriod\<close> of \<^verbatim>\<open>singen.ino\<close>. The table size \<^verbatim>\<open>LUT_SIZE\<close> is a
  compile-time constant of the sketch (256 there, 64 in the blocking variant); it is the first
  argument here. The product is a \<^verbatim>\<open>float\<close> product, the quotient a \<^verbatim>\<open>double\<close>
  quotient.
\<close>

definition calculateUpdatePeriod :: "int \<Rightarrow> fp \<Rightarrow> 64 word option" where
  "calculateUpdatePeriod lut_size freq =
     (if fp_le freq (float_of_int 0) \<or> lut_size \<le> 0 then Some 0
      else case uint64_of_double
                  (fp_div double_round (double_lit 1000000)
                     (fp_mul float_round freq (float_of_int lut_size))) of
             None \<Rightarrow> None
           | Some period \<Rightarrow> Some (if 0 < period then period else 1))"

text \<open>
  Division and remainder of \<^verbatim>\<open>int\<close> in C truncate towards zero. The blocking variant
  computes its delay with them; C leaves the expression undefined when the product overflows
  an \<^verbatim>\<open>int\<close> or is 0: \<open>None\<close>.
\<close>

definition c_div :: "int \<Rightarrow> int \<Rightarrow> int" where
  "c_div a b = sgn a * sgn b * (\<bar>a\<bar> div \<bar>b\<bar>)"

definition c_mod :: "int \<Rightarrow> int \<Rightarrow> int" where
  "c_mod a b = a - b * c_div a b"

definition delayMicros :: "int \<Rightarrow> int \<Rightarrow> int option" where
  "delayMicros freq_hz lut_size =
     (let p = freq_hz * lut_size
      in if p < - (2 ^ 31) \<or> 2 ^ 31 \<le> p \<or> p = 0 then None else Some (c_div 1000000 p))"

section \<open>The lookup table\<close>

text \<open>\<^verbatim>\<open>round\<close> of \<^verbatim>\<open>math.h\<close>: to the nearest integer, halves away from zero.\<close>

definition c_round :: "real \<Rightarrow> int" where
  "c_round x = (if 0 \<le> x then \<lfloor>x + 1 / 2\<rfloor> else \<lceil>x - 1 / 2\<rceil>)"


definition V_REF :: fp where
  "V_REF = float_of_double (double_lit (33 / 10))"

definition V_OUT_PEAK_TO_PEAK :: fp where
  "V_OUT_PEAK_TO_PEAK = float_of_double (double_lit 1)"

definition V_OUT_OFFSET :: fp where
  "V_OUT_OFFSET = float_of_double (fp_div double_round V_REF (double_lit 2))"

text \<open>The two codes that \<^verbatim>\<open>generateSineLUT\<close> computes first; the expression of
  \<open>offset_dac\<close> is also the argument of the \<^verbatim>\<open>dacWrite\<close> in \<^verbatim>\<open>loop\<close>.\<close>

definition offset_dac :: int where
  "offset_dac =
     c_round (valof (fp_mul double_round (fp_div float_round V_OUT_OFFSET V_REF) (double_lit 255)))"

definition amplitude_dac :: int where
  "amplitude_dac =
     c_round (valof (fp_mul double_round
        (fp_div double_round (fp_div double_round V_OUT_PEAK_TO_PEAK (double_lit 2)) V_REF)
        (double_lit 255)))"

datatype fault = TimerInitFailed | UndefinedConversion | UndefinedArithmetic | IndexOutOfBounds

text \<open>\<^verbatim>\<open>PI\<close> of \<^verbatim>\<open>Arduino.h\<close>, a \<^verbatim>\<open>double\<close> literal.\<close>

definition PI :: fp where
  "PI = double_lit (31415926535897932384626433832795 / 10 ^ 31)"

text \<open>
  The C library's \<^verbatim>\<open>sin\<close> is not part of the sketch and is not specified bit by bit: it
  is the parameter \<open>sin_impl\<close>. What the C standard fixes (Annex F) is kept: the sine of a
  zero is that zero, the sine of an infinity or of a NaN is a NaN.
\<close>

fun lib_sin :: "(fp \<Rightarrow> fp) \<Rightarrow> fp \<Rightarrow> fp" where
  "lib_sin sin_impl (Finite s m e) = (if m = 0 then Finite s m e else sin_impl (Finite s m e))"
| "lib_sin sin_impl (Infinity s) = NaN"
| "lib_sin sin_impl NaN = NaN"

text \<open>
  The body of the loop of \<^verbatim>\<open>generateSineLUT\<close> for index \<open>i\<close>, in the code's
  arithmetic: the angle \<^verbatim>\<open>2.0 * PI * (float)i / (float)LUT_SIZE\<close> in \<^verbatim>\<open>double\<close>, the
  sine rounded to \<^verbatim>\<open>float\<close>, the product with the amplitude in \<^verbatim>\<open>float\<close>,
  \<^verbatim>\<open>round\<close>, and the sum stored in an \<^verbatim>\<open>int\<close>. C leaves the sum undefined when the
  product is not a number or the sum is no \<^verbatim>\<open>int\<close>.
\<close>

definition sine_angle :: "int \<Rightarrow> int \<Rightarrow> fp" where
  "sine_angle lut_size i =
     fp_div double_round
       (fp_mul double_round (fp_mul double_round (double_lit 2) PI) (float_of_int i))
       (float_of_int lut_size)"

definition dac_value :: "(fp \<Rightarrow> fp) \<Rightarrow> int \<Rightarrow> int \<Rightarrow> int \<Rightarrow> int \<Rightarrow> fault + int" where
  "dac_value sin_impl lut_size offset amplitude i =
     (let sine_value = float_of_double (lib_sin sin_impl (sine_angle lut_size i));
          product = fp_mul float_round (float_of_int amplitude) sine_value
      in case product of
           Finite s m e \<Rightarrow>
             (let v = offset + c_round (valof product)
              in if - (2 ^ 31) \<le> v \<and> v < 2 ^ 31 then Inr v else Inl UndefinedConversion)
         | Infinity s \<Rightarrow> Inl UndefinedConversion
         | NaN \<Rightarrow> Inl UndefinedConversion)"

text \<open>The clamp and the cast to \<^verbatim>\<open>byte\<close> that follow.\<close>

definition clamp_byte :: "int \<Rightarrow> 8 word" where
  "clamp_byte v = word_of_int (if v < 0 then 0 else if 255 < v then 255 else v)"

definition sine_sample :: "(fp \<Rightarrow> fp) \<Rightarrow> int \<Rightarrow> int \<Rightarrow> int \<Rightarrow> int \<Rightarrow> fault + 8 word" where
  "sine_sample sin_impl lut_size offset amplitude i =
     (case dac_value sin_impl lut_size offset amplitude i of
        Inl f \<Rightarrow> Inl f
      | Inr v \<Rightarrow> Inr (clamp_byte v))"

text \<open>The \<^verbatim>\<open>for\<close> loop that fills the table, from index \<open>i\<close> on. The array
  \<^verbatim>\<open>sineLUT\<close> has \<^verbatim>\<open>LUT_SIZE\<close> entries, so every index of the loop is inside it.\<close>

function fill_table ::
  "(int \<Rightarrow> fault + 8 word) \<Rightarrow> int \<Rightarrow> int \<Rightarrow> 8 word list \<Rightarrow> fault + 8 word list" where
  "fill_table sample lut_size i lut =
     (if i < lut_size
      then (case sample i of
              Inl f \<Rightarrow> Inl f
            | Inr w \<Rightarrow> fill_table sample lut_size (i + 1) (lut[nat i := w]))
      else Inr lut)"
  by pat_completeness auto
termination
  by (relation "measure (\<lambda>(sample, lut_size, i, lut). nat (lut_size - i))") auto

text \<open>The loop of \<^verbatim>\<open>generateSineLUT\<close> over the whole array, for given codes.\<close>

definition fill_sine ::
  "(fp \<Rightarrow> fp) \<Rightarrow> int \<Rightarrow> int \<Rightarrow> int \<Rightarrow> 8 word list \<Rightarrow> fault + 8 word list" where
  "fill_sine sin_impl lut_size offset amplitude lut =
     fill_table (sine_sample sin_impl lut_size offset amplitude) lut_size 0 lut"

text \<open>
  The body of the loop of the blocking variant: the angle is computed in \<^verbatim>\<open>double\<close> and
  stored in a \<^verbatim>\<open>float\<close>, so is \<open>(sin angle + 1.0) / 2.0\<close>; the product with 255.0 is
  rounded and cast to \<^verbatim>\<open>byte\<close> without a clamp, which C leaves undefined outside
  \<open>[0, 255]\<close>.
\<close>

definition sine_sample_blocking :: "(fp \<Rightarrow> fp) \<Rightarrow> int \<Rightarrow> int \<Rightarrow> fault + 8 word" where
  "sine_sample_blocking sin_impl lut_size i =
     (let angle = float_of_double
            (fp_div double_round
               (fp_mul double_round (fp_mul double_round (double_lit 2) PI) (double_of_int i))
               (double_of_int lut_size));
          sine_val = float_of_double
            (fp_div double_round
               (fp_add double_round (lib_sin sin_impl angle) (double_lit 1)) (double_lit 2));
          scaled = fp_mul double_round sine_val (double_lit 255)
      in case scaled of
           Finite s m e \<Rightarrow>
             (let v = c_round (valof scaled)
              in if 0 \<le> v \<and> v \<le> 255 then Inr (word_of_int v) else Inl UndefinedConversion)
         | Infinity s \<Rightarrow> Inl UndefinedConversion
         | NaN \<Rightarrow> Inl UndefinedConversion)"

section \<open>The player: timer, interrupt routine, setup and loop\<close>

text \<open>
  The hardware timer as the sketch drives it: whether the interrupt routine is attached, and
  the alarm that \<^verbatim>\<open>timerAlarm\<close> programs. The output pin is the list of the codes written
  by \<^verbatim>\<open>dacWrite\<close>, oldest first. Messages printed on the serial port are left out.
\<close>

record hw_timer =
  isr_attached :: bool
  alarm_enabled :: bool
  alarm_value :: "64 word"
  autoreload :: bool
  reload_count :: "64 word"

record state =
  sineLUT :: "8 word list"
  lutIndex :: int
  timer :: hw_timer
  targetFrequency :: fp
  updatePeriodMicros :: "64 word"
  updateFrequency :: bool
  dac :: "8 word list"

definition timerBegin :: hw_timer where
  "timerBegin = \<lparr>isr_attached = False, alarm_enabled = False, alarm_value = 0,
                  autoreload = False, reload_count = 0\<rparr>"

definition timerAttachInterrupt :: "hw_timer \<Rightarrow> hw_timer" where
  "timerAttachInterrupt t = t\<lparr>isr_attached := True\<rparr>"

definition timerDetachInterrupt :: "hw_timer \<Rightarrow> hw_timer" where
  "timerDetachInterrupt t = t\<lparr>isr_attached := False\<rparr>"

definition timerAlarm :: "hw_timer \<Rightarrow> 64 word \<Rightarrow> bool \<Rightarrow> 64 word \<Rightarrow> hw_timer" where
  "timerAlarm t v r c = t\<lparr>alarm_enabled := True, alarm_value := v, autoreload := r, reload_count := c\<rparr>"

definition dacWrite :: "8 word \<Rightarrow> state \<Rightarrow> state" where
  "dacWrite v s = s\<lparr>dac := dac s @ [v]\<rparr>"

text \<open>The globals before \<^verbatim>\<open>setup\<close>; the sketch initialises \<^verbatim>\<open>targetFrequency\<close> to 100.\<close>

definition globals :: "int \<Rightarrow> fp \<Rightarrow> state" where
  "globals lut_size freq =
     \<lparr>sineLUT = replicate (nat lut_size) 0, lutIndex = 0, timer = timerBegin,
      targetFrequency = freq, updatePeriodMicros = 0, updateFrequency = False, dac = []\<rparr>"

text \<open>The interrupt routine. An index outside the table is an access out of bounds.\<close>

definition onTimer :: "int \<Rightarrow> state \<Rightarrow> fault + state" where
  "onTimer lut_size s =
     (if lutIndex s < 0 \<or> int (length (sineLUT s)) \<le> lutIndex s then Inl IndexOutOfBounds
      else let s1 = dacWrite (sineLUT s ! nat (lutIndex s)) s;
               s2 = s1\<lparr>lutIndex := lutIndex s1 + 1\<rparr>
           in Inr (if lut_size \<le> lutIndex s2 then s2\<lparr>lutIndex := 0\<rparr> else s2))"

definition generateSineLUT :: "(fp \<Rightarrow> fp) \<Rightarrow> int \<Rightarrow> state \<Rightarrow> fault + state" where
  "generateSineLUT sin_impl lut_size s =
     (case fill_sine sin_impl lut_size offset_dac amplitude_dac (sineLUT s) of
        Inl f \<Rightarrow> Inl f
      | Inr lut \<Rightarrow> Inr (s\<lparr>sineLUT := lut\<rparr>))"

text \<open>\<^verbatim>\<open>setup\<close> (the name alone is a keyword here); \<open>timer_ok\<close> tells whether
  \<^verbatim>\<open>timerBegin\<close> returned a timer. Without one the sketch stops in an endless loop.\<close>

definition setup_sketch :: "(fp \<Rightarrow> fp) \<Rightarrow> int \<Rightarrow> bool \<Rightarrow> state \<Rightarrow> fault + state" where
  "setup_sketch sin_impl lut_size timer_ok s =
     (case generateSineLUT sin_impl lut_size s of
        Inl f \<Rightarrow> Inl f
      | Inr s1 \<Rightarrow>
          if \<not> timer_ok then Inl TimerInitFailed
          else let s2 = s1\<lparr>timer := timerAttachInterrupt timerBegin\<rparr>
               in case calculateUpdatePeriod lut_size (targetFrequency s2) of
                    None \<Rightarrow> Inl UndefinedConversion
                  | Some period \<Rightarrow>
                      let s3 = s2\<lparr>updatePeriodMicros := period\<rparr>
                      in if 0 < updatePeriodMicros s3
                         then Inr (s3\<lparr>timer := timerAlarm (timer s3) (updatePeriodMicros s3) True 0\<rparr>)
                         else Inr (s3\<lparr>timer := timerDetachInterrupt (timer s3)\<rparr>))"

text \<open>The block of \<^verbatim>\<open>loop\<close> guarded by \<^verbatim>\<open>updateFrequency\<close>: the reconfiguration.\<close>

definition reconfigure :: "int \<Rightarrow> state \<Rightarrow> fault + state" where
  "reconfigure lut_size s =
     (let s1 = s\<lparr>timer := timerDetachInterrupt (timer s)\<rparr>
      in case calculateUpdatePeriod lut_size (targetFrequency s1) of
           None \<Rightarrow> Inl UndefinedConversion
         | Some period \<Rightarrow>
             let s2 = s1\<lparr>updatePeriodMicros := period\<rparr>;
                 s3 = (if 0 < updatePeriodMicros s2
                       then s2\<lparr>timer := timerAttachInterrupt
                                  (timerAlarm (timer s2) (updatePeriodMicros s2) True 0)\<rparr>
                       else dacWrite (word_of_int offset_dac) s2)
             in Inr (s3\<lparr>updateFrequency := False\<rparr>))"

text \<open>One pass of \<^verbatim>\<open>loop\<close>; \<open>serial\<close> is the number that \<^verbatim>\<open>toFloat\<close> made of a
  received line, if a line was there. The closing \<^verbatim>\<open>delay\<close> is left out: time is not
  part of the state.\<close>

definition loop :: "int \<Rightarrow> fp option \<Rightarrow> state \<Rightarrow> fault + state" where
  "loop lut_size serial s =
     (let s1 = (case serial of
                  None \<Rightarrow> s
                | Some newFreq \<Rightarrow>
                    if fp_le (float_of_int 0) newFreq
                    then s\<lparr>targetFrequency := newFreq, updateFrequency := True\<rparr>
                    else s)
      in if updateFrequency s1 then reconfigure lut_size s1 else Inr s1)"

text \<open>What happens after \<^verbatim>\<open>setup\<close>: the timer expires (the routine runs when it is attached
  and the alarm is on), or \<^verbatim>\<open>loop\<close> makes a pass.\<close>

datatype event = Tick | Loop "fp option"

fun step :: "int \<Rightarrow> event \<Rightarrow> state \<Rightarrow> fault + state" where
  "step lut_size Tick s =
     (if isr_attached (timer s) \<and> alarm_enabled (timer s) then onTimer lut_size s else Inr s)"
| "step lut_size (Loop serial) s = loop lut_size serial s"

fun run :: "int \<Rightarrow> event list \<Rightarrow> state \<Rightarrow> fault + state" where
  "run lut_size [] s = Inr s"
| "run lut_size (ev # evs) s =
     (case step lut_size ev s of Inl f \<Rightarrow> Inl f | Inr s' \<Rightarrow> run lut_size evs s')"

text \<open>The blocking variant: \<^verbatim>\<open>setup\<close> fills the table; \<^verbatim>\<open>loop\<close> writes a sample,
  advances its static index and waits.\<close>

record blocking_state =
  lut_b :: "8 word list"
  index_b :: int
  dac_b :: "8 word list"
  waited_b :: "int list"

definition setup_blocking :: "(fp \<Rightarrow> fp) \<Rightarrow> int \<Rightarrow> fault + blocking_state" where
  "setup_blocking sin_impl lut_size =
     (case fill_table (sine_sample_blocking sin_impl lut_size) lut_size 0
             (replicate (nat lut_size) 0) of
        Inl f \<Rightarrow> Inl f
      | Inr lut \<Rightarrow> Inr \<lparr>lut_b = lut, index_b = 0, dac_b = [], waited_b = []\<rparr>)"

definition loop_blocking :: "int \<Rightarrow> int \<Rightarrow> blocking_state \<Rightarrow> fault + blocking_state" where
  "loop_blocking freq_hz lut_size s =
     (if index_b s < 0 \<or> int (length (lut_b s)) \<le> index_b s then Inl IndexOutOfBounds
      else let s1 = s\<lparr>dac_b := dac_b s @ [lut_b s ! nat (index_b s)]\<rparr>
           in if lut_size = 0 then Inl UndefinedArithmetic
              else let s2 = s1\<lparr>index_b := c_mod (index_b s1 + 1) lut_size\<rparr>
                   in case delayMicros freq_hz lut_size of
                        None \<Rightarrow> Inl UndefinedArithmetic
                      | Some d \<Rightarrow> Inr (s2\<lparr>waited_b := waited_b s2 @ [d]\<rparr>))"

fun run_blocking :: "int \<Rightarrow> int \<Rightarrow> nat \<Rightarrow> blocking_state \<Rightarrow> fault + blocking_state" where
  "run_blocking freq_hz lut_size 0 s = Inr s"
| "run_blocking freq_hz lut_size (Suc k) s =
     (case loop_blocking freq_hz lut_size s of
        Inl f \<Rightarrow> Inl f
      | Inr s' \<Rightarrow> run_blocking freq_hz lut_size k s')"

section \<open>Notions used to state the properties\<close>

text \<open>The codes written so far, when the run went through.\<close>

definition writes :: "fault + state \<Rightarrow> 8 word list option" where
  "writes r = (case r of Inl f \<Rightarrow> None | Inr s \<Rightarrow> Some (dac s))"

definition and_then :: "fault + state \<Rightarrow> (state \<Rightarrow> fault + state) \<Rightarrow> fault + state" where
  "and_then r f = (case r of Inl e \<Rightarrow> Inl e | Inr s \<Rightarrow> f s)"

text \<open>The cursor is an index of the table.\<close>

definition cursor_ok :: "int \<Rightarrow> state \<Rightarrow> bool" where
  "cursor_ok n s = (0 \<le> lutIndex s \<and> lutIndex s < n \<and> length (sineLUT s) = nat n)"

text \<open>A pass of \<^verbatim>\<open>loop\<close> that takes a new frequency, and an event that cannot start the
  timer: a tick, a pass without input or with a refused one, or a pass whose frequency gives
  the period 0.\<close>

fun accepted :: "event \<Rightarrow> bool" where
  "accepted Tick = False"
| "accepted (Loop None) = False"
| "accepted (Loop (Some f)) = fp_le (float_of_int 0) f"

fun keeps_rest :: "int \<Rightarrow> event \<Rightarrow> bool" where
  "keeps_rest n Tick = True"
| "keeps_rest n (Loop None) = True"
| "keeps_rest n (Loop (Some f)) =
     (if fp_le (float_of_int 0) f then calculateUpdatePeriod n f = Some 0 else True)"

text \<open>
  What every C library's sine returns: a finite number of magnitude at most 1. One library the
  parameter can stand for is the correctly rounded sine.
\<close>

fun sine_ok :: "fp \<Rightarrow> bool" where
  "sine_ok (Finite s m e) = (0 \<le> m \<and> real_of_int m * 2 powi e \<le> 1)"
| "sine_ok (Infinity s) = False"
| "sine_ok NaN = False"

definition sin_nearest :: "fp \<Rightarrow> fp" where
  "sin_nearest x = double_round (sin (valof x) < 0) \<bar>sin (valof x)\<bar>"

text \<open>The table as the specification describes \<open>build\<close>: the two codes from the voltage
  envelope, then each sample clamped to the code range.\<close>

definition spec_offsetCode :: "real \<Rightarrow> real \<Rightarrow> real \<Rightarrow> int" where
  "spec_offsetCode vMin vMax Vref = c_round ((vMin + vMax) / 2 / Vref * 255)"

definition spec_amplitudeCode :: "real \<Rightarrow> real \<Rightarrow> real \<Rightarrow> int" where
  "spec_amplitudeCode vMin vMax Vref = c_round ((vMax - vMin) / 2 / Vref * 255)"

definition spec_sample :: "int \<Rightarrow> real \<Rightarrow> real \<Rightarrow> real \<Rightarrow> int \<Rightarrow> int" where
  "spec_sample n vMin vMax Vref i =
     max 0 (min 255 (spec_offsetCode vMin vMax Vref +
                 c_round (real_of_int (spec_amplitudeCode vMin vMax Vref) *
                          sin (2 * pi * real_of_int i / real_of_int n))))"

section \<open>Auxiliary facts\<close>

lemma float_of_int_0: "float_of_int 0 = Finite False 0 0"
  by (simp add: float_of_int_def float_round_def fp_round_def)

subsection \<open>Rounding\<close>

lemma ilog2_bounds:
  assumes "0 < x"
  shows "2 powi (ilog2 x) \<le> x" and "x < 2 powi (ilog2 x + 1)"
proof -
  have "2 powi (ilog2 x) \<le> x \<and> x < 2 powi (ilog2 x + 1)"
  proof (cases "1 \<le> x")
    case True
    then have f: "0 < \<lfloor>x\<rfloor>" by simp
    define k where "k = bitlen \<lfloor>x\<rfloor> - 1"
    have k0: "0 \<le> k" using f by (simp add: k_def bitlen_alt_def)
    from bitlen_bounds [OF f] have b: "2 ^ nat k \<le> \<lfloor>x\<rfloor>" "\<lfloor>x\<rfloor> < 2 ^ nat (k + 1)"
      by (simp_all add: k_def)
    have il: "ilog2 x = k" using True by (simp add: ilog2_def k_def)
    from b(1) have "real_of_int (2 ^ nat k) \<le> x" by (simp only: le_floor_iff)
    then have l: "2 powi k \<le> x" using k0 by (simp add: power_int_nonneg_exp)
    from b(2) have "x < real_of_int (2 ^ nat (k + 1))" by (simp only: floor_less_iff)
    then have u: "x < 2 powi (k + 1)" using k0 by (simp add: power_int_nonneg_exp)
    from l u il show ?thesis by simp
  next
    case False
    with assms have x1: "x < 1" by simp
    then have y1: "1 < 1 / x" using assms by simp
    define c where "c = \<lceil>1 / x\<rceil>"
    have c2: "2 \<le> c" using y1 by (simp add: c_def)
    then have f: "0 < c - 1" by simp
    define t where "t = bitlen (c - 1)"
    have t1: "1 \<le> t" using f by (simp add: t_def bitlen_alt_def)
    from bitlen_bounds [OF f] have b: "2 ^ nat (t - 1) \<le> c - 1" "c - 1 < 2 ^ nat t"
      by (simp_all add: t_def)
    have il: "ilog2 x = - t" using False by (simp add: ilog2_def t_def c_def)
    from b(1) have "2 ^ nat (t - 1) < c" by simp
    then have "real_of_int (2 ^ nat (t - 1)) < 1 / x" unfolding c_def by (simp only: less_ceiling_iff)
    then have "x * 2 ^ nat (t - 1) < 1" using assms by (simp add: field_simps)
    then have u': "x < 1 / 2 ^ nat (t - 1)" by (simp add: field_simps)
    have "2 powi (- t + 1) = (1 :: real) / 2 ^ nat (t - 1)"
      using t1 by (simp add: power_int_def nat_diff_distrib field_simps)
    with u' have u: "x < 2 powi (- t + 1)" by simp
    from b(2) have "c \<le> 2 ^ nat t" by simp
    then have "1 / x \<le> real_of_int (2 ^ nat t)" unfolding c_def by (simp only: ceiling_le_iff)
    then have "1 \<le> x * 2 ^ nat t" using assms by (simp add: field_simps)
    then have l': "1 / 2 ^ nat t \<le> x" by (simp add: field_simps)
    have "2 powi (- t) = (1 :: real) / 2 ^ nat t"
      using t1 by (simp add: power_int_def field_simps)
    with l' have l: "2 powi (- t) \<le> x" by simp
    from l u il show ?thesis by simp
  qed
  then show "2 powi (ilog2 x) \<le> x" and "x < 2 powi (ilog2 x + 1)" by simp_all
qed

lemma ilog2_eqI:
  assumes "2 powi k \<le> x" "x < 2 powi (k + 1)"
  shows "ilog2 x = k"
proof -
  have x0: "0 < x" using assms(1) by (rule less_le_trans [rotated]) simp
  note b = ilog2_bounds [OF x0]
  have "(2::real) powi k < 2 powi (ilog2 x + 1)" using assms(1) b(2) by simp
  then have "k < ilog2 x + 1"
    by (metis linorder_not_less one_le_numeral power_int_increasing)
  moreover have "(2::real) powi (ilog2 x) < 2 powi (k + 1)" using assms(2) b(1) by simp
  then have "ilog2 x < k + 1"
    by (metis linorder_not_less one_le_numeral power_int_increasing)
  ultimately show ?thesis by simp
qed

lemma ilog2_ge: "2 powi k \<le> x \<Longrightarrow> k \<le> ilog2 x"
proof -
  assume a: "2 powi k \<le> x"
  have x0: "0 < x" using a by (rule less_le_trans [rotated]) simp
  have "(2::real) powi k < 2 powi (ilog2 x + 1)" using a ilog2_bounds(2) [OF x0] by simp
  then have "k < ilog2 x + 1"
    by (metis linorder_not_less one_le_numeral power_int_increasing)
  then show ?thesis by simp
qed

lemma ilog2_less: "0 < x \<Longrightarrow> x < 2 powi k \<Longrightarrow> ilog2 x < k"
proof -
  assume x0: "0 < x" and a: "x < 2 powi k"
  have "(2::real) powi (ilog2 x) < 2 powi k" using a ilog2_bounds(1) [OF x0] by simp
  then show ?thesis
    by (metis linorder_not_less one_le_numeral power_int_increasing)
qed

lemma rne_bounds: "real_of_int (rne y) \<le> y + 1 / 2" "y - 1 / 2 \<le> real_of_int (rne y)"
  unfolding rne_def Let_def by (auto; linarith)+

lemma rne_of_int: "rne (real_of_int k) = k"
  by (simp add: rne_def)

lemma rne_mono: "x \<le> y \<Longrightarrow> rne x \<le> rne y"
proof -
  assume xy: "x \<le> y"
  then have f: "\<lfloor>x\<rfloor> \<le> \<lfloor>y\<rfloor>" by (rule floor_mono)
  show ?thesis
  proof (cases "\<lfloor>x\<rfloor> = \<lfloor>y\<rfloor>")
    case True
    with xy show ?thesis by (auto simp: rne_def Let_def)
  next
    case False
    with f have "\<lfloor>x\<rfloor> + 1 \<le> \<lfloor>y\<rfloor>" by simp
    moreover have "rne x \<le> \<lfloor>x\<rfloor> + 1" by (auto simp: rne_def Let_def)
    moreover have "\<lfloor>y\<rfloor> \<le> rne y" by (auto simp: rne_def Let_def)
    ultimately show ?thesis by linarith
  qed
qed

lemma fp_round_cases:
  assumes "0 < a" "0 < p" "e0 = max emin (ilog2 a - (int p - 1))"
  shows "fp_round p emin emax s a = Infinity s \<or>
    (\<exists>m e. fp_round p emin emax s a = Finite s m e \<and>
       real_of_int m * 2 powi e = real_of_int (rne (a / 2 powi e0)) * 2 powi e0)"
proof -
  have p: "(2::real) ^ (p - 1) * 2 = 2 ^ p"
    using assms(2) by (cases p) simp_all
  have "(2::real) ^ (p - 1) * 2 powi (e0 + 1) = 2 ^ p * 2 powi e0"
    by (simp add: power_int_add p [symmetric])
  then show ?thesis
    using assms(1) unfolding fp_round_def Let_def assms(3) [symmetric]
    by (auto simp del: power_int_add_numeral power_int_add_numeral2)
qed

lemma fp_round_finite:
  assumes "0 < a" "0 < p" "e0 = max emin (ilog2 a - (int p - 1))" "e0 < emax"
  shows "\<exists>m e. fp_round p emin emax s a = Finite s m e \<and>
       real_of_int m * 2 powi e = real_of_int (rne (a / 2 powi e0)) * 2 powi e0"
proof -
  have "fp_round p emin emax s a \<noteq> Infinity s"
    using assms(1,4) unfolding fp_round_def Let_def assms(3) [symmetric]
    by (auto split: if_splits)
  with fp_round_cases [OF assms(1,2,3), of emax s] show ?thesis by blast
qed

lemma rne_scaled_bounds:
  "real_of_int (rne (a / 2 powi e)) * 2 powi e \<le> a + 2 powi e / 2"
  "a - 2 powi e / 2 \<le> real_of_int (rne (a / 2 powi e)) * 2 powi e"
proof -
  define w :: real where "w = 2 powi e"
  define y where "y = a / w"
  have w: "0 < w" by (simp add: w_def)
  then have a: "y * w = a" "w * y = a" by (simp_all add: y_def)
  have "real_of_int (rne y) * w \<le> (y + 1 / 2) * w"
    using rne_bounds(1) [of y] w by (intro mult_right_mono) simp_all
  also have "\<dots> = a + w / 2" by (simp add: algebra_simps a)
  finally show "real_of_int (rne (a / 2 powi e)) * 2 powi e \<le> a + 2 powi e / 2"
    by (simp add: y_def w_def)
  have "a - w / 2 = (y - 1 / 2) * w" by (simp add: algebra_simps a)
  also have "\<dots> \<le> real_of_int (rne y) * w"
    using rne_bounds(2) [of y] w by (intro mult_right_mono) simp_all
  finally show "a - 2 powi e / 2 \<le> real_of_int (rne (a / 2 powi e)) * 2 powi e"
    by (simp add: y_def w_def)
qed

lemma rne_scaled_exact:
  assumes "a = real_of_int k * 2 powi x" "e \<le> x"
  shows "real_of_int (rne (a / 2 powi e)) * 2 powi e = a"
proof -
  have "a / 2 powi e = real_of_int k * 2 powi (x - e)"
    by (simp add: assms(1) power_int_diff)
  also have "\<dots> = real_of_int (k * 2 ^ nat (x - e))"
    using assms(2) by (simp add: power_int_nonneg_exp)
  finally have "rne (a / 2 powi e) = k * 2 ^ nat (x - e)"
    by (simp only: rne_of_int)
  then have "real_of_int (rne (a / 2 powi e)) * 2 powi e = real_of_int k * 2 powi (x - e) * 2 powi e"
    using assms(2) by (simp add: power_int_nonneg_exp)
  also have "\<dots> = a"
    by (simp add: assms(1) power_int_diff)
  finally show ?thesis .
qed

lemma fp_round_rel:
  assumes "0 < a" "0 < p" "emin \<le> ilog2 a - (int p - 1)"
    and "fp_round p emin emax s a = Finite s' m e"
  shows "s' = s" "a * (1 - 1 / 2 ^ p) \<le> real_of_int m * 2 powi e"
    "real_of_int m * 2 powi e \<le> a * (1 + 1 / 2 ^ p)"
proof -
  define e0 where "e0 = ilog2 a - (int p - 1)"
  have e0: "e0 = max emin (ilog2 a - (int p - 1))" using assms(3) by (simp add: e0_def)
  have "(2::real) powi e0 = 2 powi (ilog2 a) / 2 powi (int p - 1)"
    by (simp add: e0_def power_int_diff)
  also have "\<dots> \<le> a / 2 powi (int p - 1)"
    using ilog2_bounds(1) [OF assms(1)] by (simp add: divide_right_mono)
  also have "(2::real) powi (int p - 1) = 2 ^ p / 2"
    by (simp add: power_int_diff)
  finally have w: "2 powi e0 / 2 \<le> a / 2 ^ p" by simp
  from assms(4) fp_round_cases [OF assms(1,2) e0, of emax s]
  have v: "s' = s \<and> real_of_int m * 2 powi e = real_of_int (rne (a / 2 powi e0)) * 2 powi e0"
    by auto
  then show "s' = s" by simp
  have "a - a / 2 ^ p \<le> real_of_int m * 2 powi e"
    using rne_scaled_bounds(2) [of a e0] w v by linarith
  then show "a * (1 - 1 / 2 ^ p) \<le> real_of_int m * 2 powi e"
    by (simp add: algebra_simps)
  have "real_of_int m * 2 powi e \<le> a + a / 2 ^ p"
    using rne_scaled_bounds(1) [of a e0] w v by linarith
  then show "real_of_int m * 2 powi e \<le> a * (1 + 1 / 2 ^ p)"
    by (simp add: algebra_simps)
qed

lemma float_of_int_pos:
  assumes "0 < n" "n < 2 ^ 31"
  obtains ms es where "float_of_int n = Finite False ms es"
    "real_of_int n * (1 - 1 / 2 ^ 24) \<le> real_of_int ms * 2 powi es"
    "real_of_int ms * 2 powi es \<le> real_of_int n * (1 + 1 / 2 ^ 24)"
proof -
  have a: "0 < real_of_int n" using assms(1) by simp
  have "(2::real) powi 0 \<le> real_of_int n" using assms(1) by simp
  then have lo: "0 \<le> ilog2 (real_of_int n)" by (rule ilog2_ge)
  have "real_of_int n < real_of_int (2 ^ 31)" using assms(2) by (simp only: of_int_less_iff)
  then have "real_of_int n < 2 powi 31" by simp
  with a have hi: "ilog2 (real_of_int n) < 31" by (rule ilog2_less)
  define e0 where "e0 = max (- 149) (ilog2 (real_of_int n) - (int 24 - 1))"
  have "e0 < 104" using hi by (simp add: e0_def)
  with fp_round_finite [OF a _ e0_def, of 104 False] obtain ms es where
    r: "fp_round 24 (- 149) 104 False (real_of_int n) = Finite False ms es"
    by auto
  have n: "- 149 \<le> ilog2 (real_of_int n) - (int 24 - 1)" using lo by simp
  have f: "float_of_int n = Finite False ms es"
    using assms(1) r by (simp add: float_of_int_def float_round_def)
  from fp_round_rel(2,3) [OF a _ n r] f show thesis
    by (intro that [of ms es]) simp_all
qed

lemma double_lit_million: "double_lit 1000000 = Finite False 8589934592000000 (- 33)"
  by code_simp

lemma rne_nonneg: "0 \<le> y \<Longrightarrow> 0 \<le> rne y"
  using rne_mono [of 0 y] by (simp add: rne_def)

lemma quotient_small:
  assumes "500001 < real_of_int mp * 2 powi ep"
  shows "uint64_of_double (fp_div double_round (double_lit 1000000) (Finite False mp ep)) = Some 0
       \<or> uint64_of_double (fp_div double_round (double_lit 1000000) (Finite False mp ep)) = Some 1"
proof -
  define v where "v = real_of_int mp * 2 powi ep"
  define q where "q = 1000000 / v"
  have v: "500001 < v" using assms by (simp add: v_def)
  then have q0: "0 < q" by (simp add: q_def)
  have "q * v = 1000000" using v by (simp add: q_def)
  have q2: "q < 1999997 / 1000000"
    using v by (simp add: q_def field_simps)
  have mp: "mp \<noteq> 0" using assms by auto
  have d: "fp_div double_round (double_lit 1000000) (Finite False mp ep) =
           fp_round 53 (- 1074) 971 False q"
    using mp by (simp add: double_lit_million double_round_def q_def v_def)
  define e0 where "e0 = max (- 1074) (ilog2 q - (int 53 - 1))"
  have "q < 2 powi 1" using q2 by simp
  with q0 have "ilog2 q < 1" by (rule ilog2_less)
  then have e0: "e0 \<le> - 52" by (simp add: e0_def)
  then have "e0 < 971" by simp
  with fp_round_finite [OF q0 _ e0_def, of 971 False] obtain mw ew where
    r: "fp_round 53 (- 1074) 971 False q = Finite False mw ew"
    and w: "real_of_int mw * 2 powi ew = real_of_int (rne (q / 2 powi e0)) * 2 powi e0"
    by auto
  define w where "w = real_of_int mw * 2 powi ew"
  have "(2::real) powi e0 \<le> 2 powi (- 52)" using e0 by (intro power_int_increasing) simp_all
  then have "(2::real) powi e0 / 2 \<le> 1 / 1000000" by simp
  with rne_scaled_bounds(1) [of q e0] w q2 have w2: "w < 2" by (simp add: w_def)
  have "0 \<le> q / 2 powi e0" using q0 by simp
  then have "0 \<le> rne (q / 2 powi e0)" by (rule rne_nonneg)
  then have w0: "0 \<le> w" using w by (simp add: w_def)
  have "\<lfloor>w\<rfloor> = 0 \<or> \<lfloor>w\<rfloor> = 1" using w0 w2 by (cases "w < 1") (simp_all add: floor_eq_iff)
  then show ?thesis
    using w2 unfolding d r by (auto simp: w_def [symmetric])
qed

lemma quotient_inf:
  "uint64_of_double (fp_div double_round (double_lit 1000000) (Infinity False)) = Some 0"
  by (simp add: double_lit_million)

lemma float_of_int_pow2:
  assumes "j \<le> 30"
  shows "\<exists>ms es. float_of_int (2 ^ j) = Finite False ms es \<and> real_of_int ms * 2 powi es = 2 ^ j"
proof -
  define a :: real where "a = 2 ^ j"
  have a0: "0 < a" by (simp add: a_def)
  have a: "a = real_of_int 1 * 2 powi (int j)" by (simp add: a_def)
  have "ilog2 a = int j"
    by (rule ilog2_eqI) (simp_all add: a_def power_int_add)
  define e0 where "e0 = max (- 149) (ilog2 a - (int 24 - 1))"
  have e0: "e0 \<le> int j" "e0 < 104"
    using assms \<open>ilog2 a = int j\<close> by (simp_all add: e0_def)
  from fp_round_finite [OF a0 _ e0_def e0(2), of False] obtain ms es where
    r: "fp_round 24 (- 149) 104 False a = Finite False ms es"
    and v: "real_of_int ms * 2 powi es = real_of_int (rne (a / 2 powi e0)) * 2 powi e0"
    by auto
  have "float_of_int (2 ^ j) = Finite False ms es"
    using r by (simp add: float_of_int_def float_round_def a_def)
  moreover have "real_of_int ms * 2 powi es = 2 ^ j"
    using v rne_scaled_exact [OF a e0(1)] by (simp add: a_def)
  ultimately show ?thesis by blast
qed

lemma float_round_exact:
  assumes "0 < m" "m < 2 ^ 24" "- 149 \<le> x" "real_of_int m * 2 powi x < 2 powi 127"
  shows "\<exists>mp ep. float_round False (real_of_int m * 2 powi x) = Finite False mp ep
           \<and> real_of_int mp * 2 powi ep = real_of_int m * 2 powi x"
proof -
  define a where "a = real_of_int m * 2 powi x"
  have a0: "0 < a" using assms(1) by (simp add: a_def)
  define e0 where "e0 = max (- 149) (ilog2 a - (int 24 - 1))"
  have "real_of_int m < real_of_int (2 ^ 24)" using assms(2) by (simp only: of_int_less_iff)
  then have "a < 2 ^ 24 * 2 powi x"
    unfolding a_def by (intro mult_strict_right_mono) simp_all
  also have "\<dots> = 2 powi (x + 24)" by (simp add: power_int_add)
  finally have "ilog2 a < x + 24" using a0 by (intro ilog2_less)
  then have le: "e0 \<le> x" using assms(3) by (simp add: e0_def)
  have "ilog2 a < 127" using a0 assms(4) by (intro ilog2_less) (simp_all add: a_def)
  then have "e0 < 104" by (simp add: e0_def)
  from fp_round_finite [OF a0 _ e0_def this, of False] obtain mp ep where
    r: "fp_round 24 (- 149) 104 False a = Finite False mp ep"
    and v: "real_of_int mp * 2 powi ep = real_of_int (rne (a / 2 powi e0)) * 2 powi e0"
    by auto
  from v rne_scaled_exact [OF a_def le] have "real_of_int mp * 2 powi ep = a" by simp
  with r show ?thesis by (auto simp: float_round_def a_def)
qed

lemma gap_to_next_integer:
  assumes "0 < m" "m < 2 ^ 24" "1000000 < real_of_int k * (real_of_int m * 2 powi x)"
    and "real_of_int m * 2 powi x \<le> 1000000"
  shows "1000000 / (real_of_int m * 2 powi x) + 1 / 2 ^ 24 < real_of_int k"
proof -
  define a where "a = real_of_int m * 2 powi x"
  have a0: "0 < a" using assms(1) by (simp add: a_def)
  have gap: "1 / 2 ^ 24 < (real_of_int k * a - 1000000) / a"
  proof (cases "0 \<le> x")
    case True
    define z where "z = k * m * 2 ^ nat x - 1000000"
    have eq: "real_of_int k * a - 1000000 = real_of_int z"
      using True by (simp add: a_def z_def power_int_nonneg_exp)
    have "0 < real_of_int k * a - 1000000" using assms(3) by (simp add: a_def)
    then have "0 < real_of_int z" by (simp only: eq)
    then have "1 \<le> z" by simp
    then have "1 \<le> real_of_int z" by simp
    then have "1 \<le> real_of_int k * a - 1000000" by (simp only: eq)
    then have "1 / a \<le> (real_of_int k * a - 1000000) / a"
      using a0 by (intro divide_right_mono) simp_all
    moreover have "1 / 1000000 \<le> 1 / a"
      using assms(4) a0 by (simp add: a_def field_simps)
    moreover have "(1::real) / 2 ^ 24 < 1 / 1000000" by simp
    ultimately show ?thesis by linarith
  next
    case False
    define y where "y = nat (- x)"
    have px: "(2::real) powi x = 1 / 2 ^ y"
      using False by (simp add: y_def power_int_def field_simps)
    define z where "z = k * m - 1000000 * 2 ^ y"
    have eq: "(real_of_int k * a - 1000000) * 2 ^ y = real_of_int z"
      by (simp add: a_def z_def px algebra_simps)
    have "0 < real_of_int k * a - 1000000" using assms(3) by (simp add: a_def)
    then have "0 < (real_of_int k * a - 1000000) * 2 ^ y" by simp
    then have "0 < real_of_int z" by (simp only: eq)
    then have "1 \<le> z" by simp
    then have "1 \<le> real_of_int z" by simp
    then have "1 \<le> (real_of_int k * a - 1000000) * 2 ^ y" by (simp only: eq)
    then have "1 / 2 ^ y \<le> real_of_int k * a - 1000000"
      by (simp add: field_simps)
    then have "(1 / 2 ^ y) / a \<le> (real_of_int k * a - 1000000) / a"
      using a0 by (intro divide_right_mono) simp_all
    moreover have "(1 / 2 ^ y) / a = 1 / real_of_int m"
      using assms(1) by (simp add: a_def px)
    moreover have "real_of_int m < real_of_int (2 ^ 24)" using assms(2) by (simp only: of_int_less_iff)
    then have "1 / 2 ^ 24 < 1 / real_of_int m"
      using assms(1) by (simp add: field_simps)
    ultimately show ?thesis by linarith
  qed
  have "(real_of_int k * a - 1000000) / a = real_of_int k - 1000000 / a"
    using a0 by (simp add: field_simps)
  with gap have "1000000 / a + 1 / 2 ^ 24 < real_of_int k" by linarith
  then show ?thesis by (simp only: a_def)
qed

lemma quotient_floor:
  assumes "0 < m" "m < 2 ^ 24"
    and "real_of_int mp * 2 powi ep = real_of_int m * 2 powi x"
    and "1 \<le> 1000000 / (real_of_int m * 2 powi x)"
    and "1000000 / (real_of_int m * 2 powi x) < 2 ^ 30"
  shows "uint64_of_double (fp_div double_round (double_lit 1000000) (Finite False mp ep)) =
           Some (word_of_int \<lfloor>1000000 / (real_of_int m * 2 powi x)\<rfloor>)"
proof -
  define a where "a = real_of_int m * 2 powi x"
  define q where "q = 1000000 / a"
  define N where "N = \<lfloor>q\<rfloor>"
  have a0: "0 < a" using assms(1) by (simp add: a_def)
  have q1: "1 \<le> q" and q29: "q < 2 ^ 30" using assms(4,5) by (simp_all add: q_def a_def)
  have q0: "0 < q" using q1 by simp
  have a6: "a \<le> 1000000" using q1 a0 by (simp add: q_def field_simps)
  have mp: "mp \<noteq> 0" using assms(3) a0 by (auto simp: a_def)
  have d: "fp_div double_round (double_lit 1000000) (Finite False mp ep) =
           fp_round 53 (- 1074) 971 False q"
    using mp assms(3) by (simp add: double_lit_million double_round_def q_def a_def)
  define e0 where "e0 = max (- 1074) (ilog2 q - (int 53 - 1))"
  have "(2::real) powi 0 \<le> q" using q1 by simp
  then have lo: "0 \<le> ilog2 q" by (rule ilog2_ge)
  have "q < 2 powi 30" using q29 by simp
  with q0 have hi: "ilog2 q < 30" by (rule ilog2_less)
  have e0: "e0 \<le> - 23" "e0 \<le> 0" "e0 < 971" using lo hi by (simp_all add: e0_def)
  from fp_round_finite [OF q0 _ e0_def e0(3), of False] obtain mw ew where
    r: "fp_round 53 (- 1074) 971 False q = Finite False mw ew"
    and wv: "real_of_int mw * 2 powi ew = real_of_int (rne (q / 2 powi e0)) * 2 powi e0"
    by auto
  define w where "w = real_of_int mw * 2 powi ew"
  have N: "real_of_int N \<le> q" "q < real_of_int N + 1" by (simp_all add: N_def)
  have "real_of_int N = real_of_int N * 2 powi 0" by simp
  from rne_scaled_exact [OF this e0(2)]
  have "real_of_int N = real_of_int (rne (real_of_int N / 2 powi e0)) * 2 powi e0" by simp
  also have "\<dots> \<le> real_of_int (rne (q / 2 powi e0)) * 2 powi e0"
  proof (intro mult_right_mono)
    have "real_of_int N / 2 powi e0 \<le> q / 2 powi e0"
      using N(1) by (intro divide_right_mono) simp_all
    then have "rne (real_of_int N / 2 powi e0) \<le> rne (q / 2 powi e0)" by (rule rne_mono)
    then show "real_of_int (rne (real_of_int N / 2 powi e0)) \<le> real_of_int (rne (q / 2 powi e0))"
      by (simp only: of_int_le_iff)
  qed simp
  finally have wlo: "real_of_int N \<le> w" by (simp add: w_def wv)
  have "1000000 < real_of_int (N + 1) * a"
    using N(2) a0 by (simp add: q_def field_simps)
  from gap_to_next_integer [OF assms(1,2) this [unfolded a_def] a6 [unfolded a_def]]
  have gap: "q + 1 / 2 ^ 24 < real_of_int N + 1" by (simp add: q_def a_def)
  have "(2::real) powi e0 \<le> 2 powi (- 23)" using e0(1) by (intro power_int_increasing) simp_all
  then have "(2::real) powi e0 / 2 \<le> 1 / 2 ^ 24" by simp
  with rne_scaled_bounds(1) [of q e0] wv gap have whi: "w < real_of_int N + 1"
    by (simp add: w_def)
  have fl: "\<lfloor>w\<rfloor> = N" using wlo whi by (simp add: floor_eq_iff)
  have "real_of_int N < real_of_int (2 ^ 64)" using N(1) q29 by simp
  then have "N < 2 ^ 64" by (simp only: of_int_less_iff)
  then show ?thesis
    unfolding d r using fl by (simp add: w_def [symmetric] N_def q_def a_def)
qed

lemma mant_nonneg: "0 \<le> real_of_int m * 2 powi e \<longleftrightarrow> 0 \<le> m"
proof -
  have p: "0 < (2::real) powi e" by simp
  show ?thesis
  proof (cases "0 \<le> m")
    case True
    then show ?thesis using p by simp
  next
    case False
    then have "real_of_int m < 0" by simp
    then have "real_of_int m * 2 powi e < 0" using p by (simp add: mult_less_0_iff)
    with False show ?thesis by simp
  qed
qed

lemma mant_pos: "0 < real_of_int m * 2 powi e \<longleftrightarrow> 0 < m"
proof -
  have p: "0 < (2::real) powi e" by simp
  show ?thesis
  proof (cases "0 < m")
    case True
    then show ?thesis using p by simp
  next
    case False
    then have "real_of_int m \<le> 0" by simp
    then have "real_of_int m * 2 powi e \<le> 0" using p by (simp add: mult_le_0_iff)
    with False show ?thesis by simp
  qed
qed

lemma fp_round_le_pow2:
  assumes "0 \<le> a" "a \<le> 2 powi k" "0 < p" "emin \<le> k" "emin < emax" "k - (int p - 1) < emax"
  shows "\<exists>m e. fp_round p emin emax s a = Finite s m e \<and> 0 \<le> m
            \<and> real_of_int m * 2 powi e \<le> 2 powi k
            \<and> (0 < a \<longrightarrow> 0 < p \<longrightarrow> emin \<le> ilog2 a - (int p - 1) \<longrightarrow> 0 < m)"
proof (cases "a = 0")
  case True
  then show ?thesis by (simp add: fp_round_def)
next
  case False
  with assms(1) have a0: "0 < a" by simp
  define e0 where "e0 = max emin (ilog2 a - (int p - 1))"
  have "a < 2 powi (k + 1)"
    using assms(2) by (rule le_less_trans) (simp add: power_int_strict_increasing)
  with a0 have "ilog2 a < k + 1" by (rule ilog2_less)
  then have e0: "e0 \<le> k" "e0 < emax" using assms(3,4,5,6) by (simp_all add: e0_def)
  from fp_round_finite [OF a0 assms(3) e0_def e0(2), of s] obtain m e where
    r: "fp_round p emin emax s a = Finite s m e"
    and v: "real_of_int m * 2 powi e = real_of_int (rne (a / 2 powi e0)) * 2 powi e0"
    by auto
  have "(2::real) powi k = real_of_int 1 * 2 powi k" by simp
  from rne_scaled_exact [OF this e0(1)]
  have top: "real_of_int (rne (2 powi k / 2 powi e0)) * 2 powi e0 = 2 powi k" .
  have "a / 2 powi e0 \<le> 2 powi k / 2 powi e0"
    using assms(2) by (intro divide_right_mono) simp_all
  then have "rne (a / 2 powi e0) \<le> rne (2 powi k / 2 powi e0)" by (rule rne_mono)
  then have "real_of_int (rne (a / 2 powi e0)) * 2 powi e0
             \<le> real_of_int (rne (2 powi k / 2 powi e0)) * 2 powi e0"
    by (intro mult_right_mono) simp_all
  with top v have le: "real_of_int m * 2 powi e \<le> 2 powi k" by simp
  have "0 \<le> a / 2 powi e0" using a0 by simp
  then have "0 \<le> rne (a / 2 powi e0)" by (rule rne_nonneg)
  then have "0 \<le> real_of_int m * 2 powi e" by (simp add: v)
  then have m0: "0 \<le> m" by (simp only: mant_nonneg)
  have "0 < m" if n: "emin \<le> ilog2 a - (int p - 1)"
  proof -
    from fp_round_rel(2) [OF a0 assms(3) n r]
    have "a * (1 - 1 / 2 ^ p) \<le> real_of_int m * 2 powi e" .
    moreover have "(1::real) / 2 ^ p < 1" using assms(3) by (simp add: field_simps one_less_power)
    then have "0 < a * (1 - 1 / 2 ^ p)" using a0 by simp
    ultimately have "0 < real_of_int m * 2 powi e" by linarith
    then show ?thesis by (simp only: mant_pos)
  qed
  with r le m0 show ?thesis by blast
qed

subsection \<open>The samples of the lookup table\<close>

lemma two_pi_eq: "fp_mul double_round (double_lit 2) PI = Finite False 7074237752028440 (- 50)"
  by code_simp

lemma float_of_int_nonneg:
  assumes "0 \<le> i" "i < 2 ^ 31"
  shows "\<exists>m e. float_of_int i = Finite False m e \<and> 0 \<le> m \<and> real_of_int m * 2 powi e \<le> 2 powi 31"
proof -
  have "real_of_int i \<le> real_of_int (2 ^ 31)" using assms(2) by simp
  then have "real_of_int i \<le> 2 powi 31" by simp
  moreover have "0 \<le> real_of_int i" using assms(1) by simp
  ultimately have "\<exists>m e. fp_round 24 (- 149) 104 False (real_of_int i) = Finite False m e \<and> 0 \<le> m
            \<and> real_of_int m * 2 powi e \<le> 2 powi 31
            \<and> (0 < real_of_int i \<longrightarrow> 0 < (24::nat) \<longrightarrow> - 149 \<le> ilog2 (real_of_int i) - (int 24 - 1) \<longrightarrow> 0 < m)"
    by (intro fp_round_le_pow2) simp_all
  then show ?thesis
    using assms(1) by (auto simp: float_of_int_def float_round_def)
qed

lemma sine_angle_finite:
  assumes "0 \<le> i" "i < n" "n < 2 ^ 31"
  shows "\<exists>m e. sine_angle n i = Finite False m e \<and> 0 \<le> m"
proof -
  from float_of_int_nonneg [OF assms(1)] assms(2,3) obtain mi ei where
    fi: "float_of_int i = Finite False mi ei" and mi: "0 \<le> mi"
    and vi: "real_of_int mi * 2 powi ei \<le> 2 powi 31"
    by auto
  have n0: "0 < n" using assms(1,2) by simp
  from float_of_int_pos [OF n0 assms(3)] obtain mn en where
    fn: "float_of_int n = Finite False mn en"
    and vn: "real_of_int n * (1 - 1 / 2 ^ 24) \<le> real_of_int mn * 2 powi en"
    by blast
  have "1 * (1 - 1 / 2 ^ 24) \<le> real_of_int n * (1 - 1 / 2 ^ 24)"
    using n0 by (intro mult_right_mono) simp_all
  with vn have vn2: "1 / 2 \<le> real_of_int mn * 2 powi en" by simp
  then have "0 < real_of_int mn * 2 powi en" by simp
  then have mn: "mn \<noteq> 0" by (auto simp: mant_pos)
  define a where "a = real_of_int 7074237752028440 * 2 powi (- 50) * (real_of_int mi * 2 powi ei)"
  have a0: "0 \<le> a" using mi by (simp add: a_def)
  have "a \<le> 8 * (real_of_int mi * 2 powi ei)"
    unfolding a_def using mi by (intro mult_right_mono) simp_all
  also have "\<dots> \<le> 8 * 2 powi 31" using vi by simp
  also have "\<dots> = 2 powi 34" by simp
  finally have a34: "a \<le> 2 powi 34" .
  have "\<exists>m e. fp_round 53 (- 1074) 971 False a = Finite False m e \<and> 0 \<le> m
            \<and> real_of_int m * 2 powi e \<le> 2 powi 34
            \<and> (0 < a \<longrightarrow> 0 < (53::nat) \<longrightarrow> - 1074 \<le> ilog2 a - (int 53 - 1) \<longrightarrow> 0 < m)"
    using a0 a34 by (intro fp_round_le_pow2) simp_all
  then obtain m2 e2 where
    r2: "fp_round 53 (- 1074) 971 False a = Finite False m2 e2" and m2: "0 \<le> m2"
    and v2: "real_of_int m2 * 2 powi e2 \<le> 2 powi 34"
    by blast
  have num: "fp_mul double_round (fp_mul double_round (double_lit 2) PI) (float_of_int i) =
             Finite False m2 e2"
    unfolding two_pi_eq fi
    by (simp only: fp_mul.simps mag.simps double_round_def simp_thms r2 [unfolded a_def])
  define b where "b = real_of_int m2 * 2 powi e2 / (real_of_int mn * 2 powi en)"
  have b0: "0 \<le> b" using m2 vn2 by (simp add: b_def)
  have "b \<le> 2 powi 34 / (1 / 2)"
    unfolding b_def using v2 vn2 m2 by (intro frac_le) simp_all
  then have b35: "b \<le> 2 powi 35" by simp
  have "\<exists>m e. fp_round 53 (- 1074) 971 False b = Finite False m e \<and> 0 \<le> m
            \<and> real_of_int m * 2 powi e \<le> 2 powi 35
            \<and> (0 < b \<longrightarrow> 0 < (53::nat) \<longrightarrow> - 1074 \<le> ilog2 b - (int 53 - 1) \<longrightarrow> 0 < m)"
    using b0 b35 by (intro fp_round_le_pow2) simp_all
  then obtain m e where
    r: "fp_round 53 (- 1074) 971 False b = Finite False m e" and m: "0 \<le> m"
    by blast
  have "sine_angle n i = fp_div double_round (Finite False m2 e2) (Finite False mn en)"
    by (simp only: sine_angle_def num fn)
  also have "\<dots> = Finite False m e"
    using mn by (simp add: double_round_def r [unfolded b_def])
  finally show ?thesis using m by blast
qed

lemma lib_sin_ok:
  assumes "\<forall>x. sine_ok (sin_impl x)" "0 \<le> m"
  shows "sine_ok (lib_sin sin_impl (Finite s m e))"
  using assms by simp

lemma c_round_bounds: "\<bar>x\<bar> \<le> real_of_int k \<Longrightarrow> \<bar>c_round x\<bar> \<le> k"
  unfolding c_round_def by (auto simp: abs_le_iff; linarith)

lemma dac_value_ok:
  assumes "sine_ok (lib_sin sin_impl (sine_angle n i))"
    and "0 \<le> offset" "offset \<le> 255" "0 \<le> amplitude" "amplitude \<le> 255"
  shows "\<exists>v. dac_value sin_impl n offset amplitude i = Inr v \<and> \<bar>v - offset\<bar> \<le> 256"
proof -
  from assms(1) obtain s m e where
    sv: "lib_sin sin_impl (sine_angle n i) = Finite s m e" and m: "0 \<le> m"
    and v: "real_of_int m * 2 powi e \<le> 1"
    by (cases "lib_sin sin_impl (sine_angle n i)") auto
  have "\<exists>m1 e1. fp_round 24 (- 149) 104 s (real_of_int m * 2 powi e) = Finite s m1 e1 \<and> 0 \<le> m1
            \<and> real_of_int m1 * 2 powi e1 \<le> 2 powi 0
            \<and> (0 < real_of_int m * 2 powi e \<longrightarrow> 0 < (24::nat)
                \<longrightarrow> - 149 \<le> ilog2 (real_of_int m * 2 powi e) - (int 24 - 1) \<longrightarrow> 0 < m1)"
    using m v by (intro fp_round_le_pow2) simp_all
  then obtain m1 e1 where
    r1: "fp_round 24 (- 149) 104 s (real_of_int m * 2 powi e) = Finite s m1 e1"
    and m1: "0 \<le> m1" and v1: "real_of_int m1 * 2 powi e1 \<le> 1"
    by auto
  have sf: "float_of_double (lib_sin sin_impl (sine_angle n i)) = Finite s m1 e1"
    by (simp add: sv float_round_def r1)
  have "\<exists>m2 e2. fp_round 24 (- 149) 104 False (real_of_int amplitude) = Finite False m2 e2 \<and> 0 \<le> m2
            \<and> real_of_int m2 * 2 powi e2 \<le> 2 powi 8
            \<and> (0 < real_of_int amplitude \<longrightarrow> 0 < (24::nat)
                \<longrightarrow> - 149 \<le> ilog2 (real_of_int amplitude) - (int 24 - 1) \<longrightarrow> 0 < m2)"
    using assms(4,5) by (intro fp_round_le_pow2) simp_all
  then obtain m2 e2 where
    r2: "fp_round 24 (- 149) 104 False (real_of_int amplitude) = Finite False m2 e2"
    and m2: "0 \<le> m2" and v2: "real_of_int m2 * 2 powi e2 \<le> 256"
    by auto
  have af: "float_of_int amplitude = Finite False m2 e2"
    using assms(4) by (simp add: float_of_int_def float_round_def r2)
  define a where "a = real_of_int m2 * 2 powi e2 * (real_of_int m1 * 2 powi e1)"
  have a0: "0 \<le> a" using m1 m2 by (simp add: a_def)
  have "a \<le> 256 * 1"
    unfolding a_def using v1 v2 m1 m2 by (intro mult_mono) simp_all
  then have a8: "a \<le> 2 powi 8" by simp
  have "\<exists>m3 e3. fp_round 24 (- 149) 104 s a = Finite s m3 e3 \<and> 0 \<le> m3
            \<and> real_of_int m3 * 2 powi e3 \<le> 2 powi 8
            \<and> (0 < a \<longrightarrow> 0 < (24::nat) \<longrightarrow> - 149 \<le> ilog2 a - (int 24 - 1) \<longrightarrow> 0 < m3)"
    using a0 a8 by (intro fp_round_le_pow2) simp_all
  then obtain m3 e3 where
    r3: "fp_round 24 (- 149) 104 s a = Finite s m3 e3"
    and m3: "0 \<le> m3" and v3: "real_of_int m3 * 2 powi e3 \<le> 256"
    by auto
  have pr: "fp_mul float_round (float_of_int amplitude)
              (float_of_double (lib_sin sin_impl (sine_angle n i))) = Finite s m3 e3"
    by (simp add: af sf float_round_def r3 [unfolded a_def])
  have "0 \<le> real_of_int m3 * 2 powi e3" using m3 by simp
  with v3 have "\<bar>valof (Finite s m3 e3)\<bar> \<le> real_of_int 256" by simp
  then have c: "\<bar>c_round (valof (Finite s m3 e3))\<bar> \<le> 256" by (rule c_round_bounds)
  then show ?thesis
    using assms(2,3) unfolding dac_value_def Let_def pr
    by (auto simp: abs_le_iff)
qed

declare fill_table.simps [simp del]

lemma fill_table_length:
  "fill_table sample n i lut = Inr lut' \<Longrightarrow> length lut' = length lut"
proof (induction sample n i lut rule: fill_table.induct)
  case (1 sample n i lut)
  show ?case
  proof (cases "i < n")
    case True
    show ?thesis
    proof (cases "sample i")
      case (Inl f)
      with True "1.prems" show ?thesis by (subst (asm) fill_table.simps) simp
    next
      case (Inr w)
      with True "1.prems" have "fill_table sample n (i + 1) (lut[nat i := w]) = Inr lut'"
        by (subst (asm) fill_table.simps) simp
      from "1.IH" [OF True Inr this] show ?thesis by simp
    qed
  next
    case False
    with "1.prems" show ?thesis by (subst (asm) fill_table.simps) simp
  qed
qed

lemma fill_table_nth:
  "fill_table sample n i lut = Inr lut' \<Longrightarrow> 0 \<le> i \<Longrightarrow> k < length lut \<Longrightarrow>
   (if i \<le> int k \<and> int k < n then sample (int k) = Inr (lut' ! k) else lut' ! k = lut ! k)"
proof (induction sample n i lut rule: fill_table.induct)
  case (1 sample n i lut)
  show ?case
  proof (cases "i < n")
    case True
    show ?thesis
    proof (cases "sample i")
      case (Inl f)
      with True "1.prems" show ?thesis by (subst (asm) fill_table.simps) simp
    next
      case (Inr w)
      with True "1.prems" have f: "fill_table sample n (i + 1) (lut[nat i := w]) = Inr lut'"
        by (subst (asm) fill_table.simps) simp
      from "1.IH" [OF True Inr f] "1.prems"(2,3)
      have ih: "if i + 1 \<le> int k \<and> int k < n then sample (int k) = Inr (lut' ! k)
                else lut' ! k = lut[nat i := w] ! k"
        by simp
      show ?thesis
      proof (cases "int k = i")
        case True
        then have "nat i = k" by simp
        with ih "1.prems"(2,3) Inr \<open>i < n\<close> True show ?thesis by auto
      next
        case False
        then have "nat i \<noteq> k" using "1.prems"(2) by auto
        with ih False show ?thesis by (auto simp: nth_list_update)
      qed
    qed
  next
    case False
    with "1.prems" show ?thesis by (subst (asm) fill_table.simps) auto
  qed
qed

lemma fill_table_total:
  "(\<And>j. i \<le> j \<Longrightarrow> j < n \<Longrightarrow> \<exists>w. sample j = Inr w) \<Longrightarrow> \<exists>lut'. fill_table sample n i lut = Inr lut'"
proof (induction sample n i lut rule: fill_table.induct)
  case (1 sample n i lut)
  show ?case
  proof (cases "i < n")
    case True
    with "1.prems" [of i] obtain w where w: "sample i = Inr w" by auto
    have "\<exists>lut'. fill_table sample n (i + 1) (lut[nat i := w]) = Inr lut'"
      using "1.prems" by (intro "1.IH" [OF True w]) auto
    with True w show ?thesis by (subst fill_table.simps) simp
  next
    case False
    then show ?thesis by (subst fill_table.simps) simp
  qed
qed

lemma uint_clamp_byte: "uint (clamp_byte v) = max 0 (min 255 v)"
proof -
  have *: "uint (word_of_int v :: 8 word) = v" if "0 \<le> v" "v \<le> 255" for v :: int
    using that by (simp add: uint_word_of_int take_bit_int_eq_self)
  show ?thesis
    unfolding clamp_byte_def by (auto simp: * max_def min_def)
qed

lemma fill_sine_nth:
  assumes "fill_sine sin_impl n off amp lut = Inr lut'" "0 \<le> i" "i < n" "length lut = nat n"
  shows "sine_sample sin_impl n off amp i = Inr (lut' ! nat i)"
  using fill_table_nth [OF assms(1) [unfolded fill_sine_def], of "nat i"] assms(2,3,4) by simp

lemma fill_sine_length: "fill_sine sin_impl n off amp lut = Inr lut' \<Longrightarrow> length lut' = length lut"
  unfolding fill_sine_def by (rule fill_table_length)

lemma sine_sample_ok:
  assumes "\<forall>x. sine_ok (sin_impl x)" "0 \<le> i" "i < n" "n < 2 ^ 31"
    and "0 \<le> offset" "offset \<le> 255" "0 \<le> amplitude" "amplitude \<le> 255"
  shows "\<exists>v. dac_value sin_impl n offset amplitude i = Inr v \<and> \<bar>v - offset\<bar> \<le> 256
            \<and> sine_sample sin_impl n offset amplitude i = Inr (clamp_byte v)"
proof -
  from sine_angle_finite [OF assms(2,3,4)] obtain m e where
    "sine_angle n i = Finite False m e" "0 \<le> m" by blast
  with lib_sin_ok [OF assms(1), of m False e]
  have "sine_ok (lib_sin sin_impl (sine_angle n i))" by simp
  from dac_value_ok [OF this assms(5,6,7,8)] show ?thesis
    by (auto simp: sine_sample_def)
qed

lemma fill_sine_total:
  assumes "\<forall>x. sine_ok (sin_impl x)" "n < 2 ^ 31"
    and "0 \<le> offset" "offset \<le> 255" "0 \<le> amplitude" "amplitude \<le> 255"
  shows "\<exists>lut'. fill_sine sin_impl n offset amplitude lut = Inr lut'"
  unfolding fill_sine_def
proof (rule fill_table_total)
  fix j :: int
  assume "0 \<le> j" "j < n"
  from sine_sample_ok [OF assms(1) this assms(2,3,4,5,6)]
  show "\<exists>w. sine_sample sin_impl n offset amplitude j = Inr w" by blast
qed

lemma fp_round_le:
  assumes "0 \<le> a" "a \<le> real_of_int c * 2 powi x" "real_of_int c * 2 powi x < 2 powi kb"
    and "kb - int p \<le> x" "emin \<le> x" "0 < p" "emin < emax" "kb - int p < emax"
  shows "\<exists>m e. fp_round p emin emax s a = Finite s m e \<and> 0 \<le> m
            \<and> real_of_int m * 2 powi e \<le> real_of_int c * 2 powi x"
proof (cases "a = 0")
  case True
  with assms(1,2) show ?thesis by (simp add: fp_round_def)
next
  case False
  with assms(1) have a0: "0 < a" by simp
  define e0 where "e0 = max emin (ilog2 a - (int p - 1))"
  have "a < 2 powi kb" using assms(2,3) by simp
  with a0 have "ilog2 a < kb" by (rule ilog2_less)
  then have e0: "e0 \<le> x" "e0 < emax" using assms(4,5,7,8) by (simp_all add: e0_def)
  from fp_round_finite [OF a0 assms(6) e0_def e0(2), of s] obtain m e where
    r: "fp_round p emin emax s a = Finite s m e"
    and v: "real_of_int m * 2 powi e = real_of_int (rne (a / 2 powi e0)) * 2 powi e0"
    by auto
  from rne_scaled_exact [OF refl e0(1), of c]
  have top: "real_of_int (rne (real_of_int c * 2 powi x / 2 powi e0)) * 2 powi e0 =
             real_of_int c * 2 powi x" .
  have "a / 2 powi e0 \<le> real_of_int c * 2 powi x / 2 powi e0"
    using assms(2) by (intro divide_right_mono) simp_all
  then have "rne (a / 2 powi e0) \<le> rne (real_of_int c * 2 powi x / 2 powi e0)" by (rule rne_mono)
  then have "real_of_int (rne (a / 2 powi e0)) * 2 powi e0
             \<le> real_of_int (rne (real_of_int c * 2 powi x / 2 powi e0)) * 2 powi e0"
    by (intro mult_right_mono) simp_all
  with top v have le: "real_of_int m * 2 powi e \<le> real_of_int c * 2 powi x" by simp
  have "0 \<le> a / 2 powi e0" using a0 by simp
  then have "0 \<le> rne (a / 2 powi e0)" by (rule rne_nonneg)
  then have "0 \<le> real_of_int m * 2 powi e" by (simp add: v)
  then have "0 \<le> m" by (simp only: mant_nonneg)
  with r le show ?thesis by blast
qed

lemma sin_nearest_ok: "sine_ok (sin_nearest x)"
proof -
  have "\<exists>m e. fp_round 53 (- 1074) 971 (sin (valof x) < 0) \<bar>sin (valof x)\<bar> =
               Finite (sin (valof x) < 0) m e \<and> 0 \<le> m
            \<and> real_of_int m * 2 powi e \<le> 1"
    using fp_round_le [of "\<bar>sin (valof x)\<bar>" 1 0 1 53 "- 1074" 971 "sin (valof x) < 0"]
    by simp
  then show ?thesis by (auto simp: sin_nearest_def double_round_def)
qed

lemma double_lits:
  "double_lit 1 = Finite False 4503599627370496 (- 52)"
  "double_lit 2 = Finite False 4503599627370496 (- 51)"
  "double_lit 255 = Finite False 8972014882652160 (- 45)"
  by code_simp+

lemma c_round_range: "0 \<le> x \<Longrightarrow> x \<le> real_of_int k \<Longrightarrow> 0 \<le> c_round x \<and> c_round x \<le> k"
  unfolding c_round_def by (auto; linarith)

lemma double_of_int_nonneg:
  assumes "0 \<le> i" "i < 2 ^ 31"
  shows "\<exists>m e. double_of_int i = Finite False m e \<and> 0 \<le> m
           \<and> real_of_int m * 2 powi e \<le> 2 powi 31
           \<and> (0 < i \<longrightarrow> 1 / 2 \<le> real_of_int m * 2 powi e)"
proof -
  have le: "real_of_int i \<le> 2 powi 31" using assms(2) by simp
  have "\<exists>m e. fp_round 53 (- 1074) 971 False (real_of_int i) = Finite False m e \<and> 0 \<le> m
            \<and> real_of_int m * 2 powi e \<le> 2 powi 31
            \<and> (0 < real_of_int i \<longrightarrow> 0 < (53::nat)
                \<longrightarrow> - 1074 \<le> ilog2 (real_of_int i) - (int 53 - 1) \<longrightarrow> 0 < m)"
    using assms(1) le by (intro fp_round_le_pow2) simp_all
  then obtain m e where r: "fp_round 53 (- 1074) 971 False (real_of_int i) = Finite False m e"
    and m: "0 \<le> m" and v: "real_of_int m * 2 powi e \<le> 2 powi 31"
    by blast
  have "1 / 2 \<le> real_of_int m * 2 powi e" if i: "0 < i"
  proof -
    have "(2::real) powi 0 \<le> real_of_int i" using i by simp
    then have "0 \<le> ilog2 (real_of_int i)" by (rule ilog2_ge)
    then have n: "- 1074 \<le> ilog2 (real_of_int i) - (int 53 - 1)" by simp
    have "0 < real_of_int i" using i by simp
    from fp_round_rel(2) [OF this _ n r]
    have "real_of_int i * (1 - 1 / 2 ^ 53) \<le> real_of_int m * 2 powi e" by simp
    moreover have "1 * (1 - 1 / 2 ^ 53) \<le> real_of_int i * (1 - 1 / 2 ^ 53)"
      using i by (intro mult_right_mono) simp_all
    ultimately show ?thesis by simp
  qed
  with r m v show ?thesis
    using assms(1) by (auto simp: double_of_int_def double_round_def)
qed

lemma sine_sample_blocking_ok:
  assumes "\<forall>x. sine_ok (sin_impl x)" "0 \<le> i" "i < n" "n < 2 ^ 31"
  shows "\<exists>w. sine_sample_blocking sin_impl n i = Inr w"
proof -
  from double_of_int_nonneg [OF assms(2)] assms(3,4) obtain mi ei where
    fi: "double_of_int i = Finite False mi ei" and mi: "0 \<le> mi"
    and vi: "real_of_int mi * 2 powi ei \<le> 2 powi 31"
    by auto
  have n0: "0 \<le> n" "0 < n" using assms(2,3) by simp_all
  from double_of_int_nonneg [OF n0(1) assms(4)] n0(2) obtain mn en where
    fn: "double_of_int n = Finite False mn en"
    and vn: "1 / 2 \<le> real_of_int mn * 2 powi en"
    by auto
  have "0 < real_of_int mn * 2 powi en" using vn by simp
  then have mn: "mn \<noteq> 0" by (auto simp: mant_pos)
  define a where "a = real_of_int 7074237752028440 * 2 powi (- 50) * (real_of_int mi * 2 powi ei)"
  have a0: "0 \<le> a" using mi by (simp add: a_def)
  have "a \<le> 8 * (real_of_int mi * 2 powi ei)"
    unfolding a_def using mi by (intro mult_right_mono) simp_all
  also have "\<dots> \<le> 8 * 2 powi 31" using vi by simp
  also have "\<dots> = 2 powi 34" by simp
  finally have a34: "a \<le> 2 powi 34" .
  have "\<exists>m e. fp_round 53 (- 1074) 971 False a = Finite False m e \<and> 0 \<le> m
            \<and> real_of_int m * 2 powi e \<le> 2 powi 34
            \<and> (0 < a \<longrightarrow> 0 < (53::nat) \<longrightarrow> - 1074 \<le> ilog2 a - (int 53 - 1) \<longrightarrow> 0 < m)"
    using a0 a34 by (intro fp_round_le_pow2) simp_all
  then obtain m2 e2 where
    r2: "fp_round 53 (- 1074) 971 False a = Finite False m2 e2" and m2: "0 \<le> m2"
    and v2: "real_of_int m2 * 2 powi e2 \<le> 2 powi 34"
    by blast
  have num: "fp_mul double_round (fp_mul double_round (double_lit 2) PI) (double_of_int i) =
             Finite False m2 e2"
    unfolding two_pi_eq fi
    by (simp only: fp_mul.simps mag.simps double_round_def simp_thms r2 [unfolded a_def])
  define b where "b = real_of_int m2 * 2 powi e2 / (real_of_int mn * 2 powi en)"
  have b0: "0 \<le> b" using m2 vn by (simp add: b_def)
  have "b \<le> 2 powi 34 / (1 / 2)"
    unfolding b_def using v2 vn m2 by (intro frac_le) simp_all
  then have b35: "b \<le> 2 powi 35" by simp
  have "\<exists>m e. fp_round 53 (- 1074) 971 False b = Finite False m e \<and> 0 \<le> m
            \<and> real_of_int m * 2 powi e \<le> 2 powi 35
            \<and> (0 < b \<longrightarrow> 0 < (53::nat) \<longrightarrow> - 1074 \<le> ilog2 b - (int 53 - 1) \<longrightarrow> 0 < m)"
    using b0 b35 by (intro fp_round_le_pow2) simp_all
  then obtain m3 e3 where
    r3: "fp_round 53 (- 1074) 971 False b = Finite False m3 e3" and m3: "0 \<le> m3"
    and v3: "real_of_int m3 * 2 powi e3 \<le> 2 powi 35"
    by blast
  have q: "fp_div double_round
             (fp_mul double_round (fp_mul double_round (double_lit 2) PI) (double_of_int i))
             (double_of_int n) = Finite False m3 e3"
    unfolding num fn using mn by (simp add: double_round_def r3 [unfolded b_def])
  have "\<exists>m e. fp_round 24 (- 149) 104 False (real_of_int m3 * 2 powi e3) = Finite False m e \<and> 0 \<le> m
            \<and> real_of_int m * 2 powi e \<le> 2 powi 35
            \<and> (0 < real_of_int m3 * 2 powi e3 \<longrightarrow> 0 < (24::nat)
                \<longrightarrow> - 149 \<le> ilog2 (real_of_int m3 * 2 powi e3) - (int 24 - 1) \<longrightarrow> 0 < m)"
    using m3 v3 by (intro fp_round_le_pow2) simp_all
  then obtain ma ea where
    ra: "fp_round 24 (- 149) 104 False (real_of_int m3 * 2 powi e3) = Finite False ma ea"
    and ma: "0 \<le> ma"
    by blast
  have angle: "float_of_double (fp_div double_round
             (fp_mul double_round (fp_mul double_round (double_lit 2) PI) (double_of_int i))
             (double_of_int n)) = Finite False ma ea"
    unfolding q by (simp add: float_round_def ra)
  from lib_sin_ok [OF assms(1) ma, of False ea] obtain s m e where
    sv: "lib_sin sin_impl (Finite False ma ea) = Finite s m e" and m: "0 \<le> m"
    and v: "real_of_int m * 2 powi e \<le> 1"
    by (cases "lib_sin sin_impl (Finite False ma ea)") auto
  define t where "t = valof (Finite s m e) + 1"
  have "0 \<le> real_of_int m * 2 powi e" using m by simp
  with v have t: "0 \<le> t" "t \<le> 2" by (auto simp: t_def)
  have "\<exists>m4 e4. fp_add double_round (Finite s m e) (double_lit 1) = Finite False m4 e4 \<and> 0 \<le> m4
          \<and> real_of_int m4 * 2 powi e4 \<le> 2"
  proof (cases "t = 0")
    case True
    then show ?thesis
      unfolding double_lits by (simp add: t_def Let_def)
  next
    case False
    have "\<exists>m4 e4. fp_round 53 (- 1074) 971 False t = Finite False m4 e4 \<and> 0 \<le> m4
            \<and> real_of_int m4 * 2 powi e4 \<le> 2 powi 1
            \<and> (0 < t \<longrightarrow> 0 < (53::nat) \<longrightarrow> - 1074 \<le> ilog2 t - (int 53 - 1) \<longrightarrow> 0 < m4)"
      using t by (intro fp_round_le_pow2) simp_all
    moreover have "fp_add double_round (Finite s m e) (double_lit 1) =
                   fp_round 53 (- 1074) 971 False t"
      unfolding double_lits using False t
      by (simp add: t_def Let_def double_round_def)
    ultimately show ?thesis by auto
  qed
  then obtain m4 e4 where
    r4: "fp_add double_round (Finite s m e) (double_lit 1) = Finite False m4 e4"
    and m4: "0 \<le> m4" and v4: "real_of_int m4 * 2 powi e4 \<le> 2"
    by blast
  define h where "h = real_of_int m4 * 2 powi e4 / (real_of_int 4503599627370496 * 2 powi (- 51))"
  have h2: "h = real_of_int m4 * 2 powi e4 / 2" by (simp add: h_def)
  have h: "0 \<le> h" "h \<le> 1" using m4 v4 by (simp_all add: h2)
  have "\<exists>m5 e5. fp_round 53 (- 1074) 971 False h = Finite False m5 e5 \<and> 0 \<le> m5
            \<and> real_of_int m5 * 2 powi e5 \<le> 2 powi 0
            \<and> (0 < h \<longrightarrow> 0 < (53::nat) \<longrightarrow> - 1074 \<le> ilog2 h - (int 53 - 1) \<longrightarrow> 0 < m5)"
    using h by (intro fp_round_le_pow2) simp_all
  then obtain m5 e5 where
    r5: "fp_round 53 (- 1074) 971 False h = Finite False m5 e5" and m5: "0 \<le> m5"
    and v5: "real_of_int m5 * 2 powi e5 \<le> 1"
    by auto
  have half: "fp_div double_round (Finite False m4 e4) (double_lit 2) = Finite False m5 e5"
    unfolding double_lits
    by (simp only: fp_div.simps mag.simps double_round_def simp_thms r5 [unfolded h_def]) simp
  have "\<exists>m6 e6. fp_round 24 (- 149) 104 False (real_of_int m5 * 2 powi e5) = Finite False m6 e6
            \<and> 0 \<le> m6 \<and> real_of_int m6 * 2 powi e6 \<le> 2 powi 0
            \<and> (0 < real_of_int m5 * 2 powi e5 \<longrightarrow> 0 < (24::nat)
                \<longrightarrow> - 149 \<le> ilog2 (real_of_int m5 * 2 powi e5) - (int 24 - 1) \<longrightarrow> 0 < m6)"
    using m5 v5 by (intro fp_round_le_pow2) simp_all
  then obtain m6 e6 where
    r6: "fp_round 24 (- 149) 104 False (real_of_int m5 * 2 powi e5) = Finite False m6 e6"
    and m6: "0 \<le> m6" and v6: "real_of_int m6 * 2 powi e6 \<le> 1"
    by auto
  have sine_val: "float_of_double (Finite False m5 e5) = Finite False m6 e6"
    by (simp add: float_round_def r6)
  define g where "g = real_of_int m6 * 2 powi e6 * (real_of_int 8972014882652160 * 2 powi (- 45))"
  have g2: "g = real_of_int m6 * 2 powi e6 * 255" by (simp add: g_def)
  have g: "0 \<le> g" "g \<le> real_of_int 255 * 2 powi 0" using m6 v6 by (simp_all add: g2)
  have "\<exists>m7 e7. fp_round 53 (- 1074) 971 False g = Finite False m7 e7 \<and> 0 \<le> m7
            \<and> real_of_int m7 * 2 powi e7 \<le> real_of_int 255 * 2 powi 0"
    using g by (intro fp_round_le [where kb = 8]) simp_all
  then obtain m7 e7 where
    r7: "fp_round 53 (- 1074) 971 False g = Finite False m7 e7" and m7: "0 \<le> m7"
    and v7: "real_of_int m7 * 2 powi e7 \<le> 255"
    by auto
  have scaled: "fp_mul double_round (Finite False m6 e6) (double_lit 255) = Finite False m7 e7"
    unfolding double_lits
    by (simp only: fp_mul.simps mag.simps double_round_def simp_thms r7 [unfolded g_def])
  have "0 \<le> real_of_int m7 * 2 powi e7" using m7 by simp
  with v7 have "0 \<le> c_round (valof (Finite False m7 e7)) \<and> c_round (valof (Finite False m7 e7)) \<le> 255"
    by (intro c_round_range) simp_all
  then show ?thesis
    unfolding sine_sample_blocking_def Let_def angle sv r4 half sine_val scaled
    by simp
qed

lemma float_of_int_pos_cases:
  assumes "0 < n"
  shows "float_of_int n = Infinity False \<or> (\<exists>m e. float_of_int n = Finite False m e \<and> m \<noteq> 0)"
proof -
  define a where "a = real_of_int n"
  define e0 where "e0 = max (- 149) (ilog2 a - (int 24 - 1))"
  have a1: "2 powi 0 \<le> a" using assms by (simp add: a_def)
  then have a0: "0 < a" by simp
  from a1 have l0: "0 \<le> ilog2 a" by (rule ilog2_ge)
  then have "e0 \<le> ilog2 a" by (simp add: e0_def)
  then have "(2::real) powi e0 \<le> 2 powi ilog2 a" by (intro power_int_increasing) simp_all
  also have "\<dots> \<le> a" using ilog2_bounds [OF a0] by simp
  finally have "real_of_int 1 \<le> a / 2 powi e0" by (simp add: field_simps)
  then have "rne (real_of_int 1) \<le> rne (a / 2 powi e0)" by (rule rne_mono)
  then have r: "1 \<le> rne (a / 2 powi e0)" by (simp only: rne_of_int)
  from fp_round_cases [OF a0 _ e0_def, of "- 149 + 253" False, simplified]
  have "fp_round 24 (- 149) 104 False a = Infinity False \<or>
    (\<exists>m e. fp_round 24 (- 149) 104 False a = Finite False m e \<and>
       real_of_int m * 2 powi e = real_of_int (rne (a / 2 powi e0)) * 2 powi e0)"
    by simp
  moreover have "m \<noteq> 0"
    if "real_of_int m * 2 powi e = real_of_int (rne (a / 2 powi e0)) * 2 powi e0" for m e
  proof -
    have "0 < real_of_int (rne (a / 2 powi e0)) * 2 powi e0" using r by simp
    with that have "0 < real_of_int m * 2 powi e" by simp
    then show ?thesis by (auto simp: mant_pos)
  qed
  ultimately show ?thesis
    using assms by (auto simp: float_of_int_def float_round_def a_def)
qed

lemma sine_angle_0:
  assumes "0 < n"
  shows "sine_angle n 0 = Finite False 0 0"
proof -
  have z: "fp_round 53 (- 1074) 971 False 0 = Finite False 0 0" by (simp add: fp_round_def)
  have num: "fp_mul double_round (fp_mul double_round (double_lit 2) PI) (float_of_int 0) =
             Finite False 0 0"
    unfolding two_pi_eq float_of_int_0 by (simp add: double_round_def z)
  from float_of_int_pos_cases [OF assms] show ?thesis
    unfolding sine_angle_def num by (auto simp: double_round_def z)
qed

lemma float_of_int_not_NaN: "float_of_int a \<noteq> NaN"
  by (simp add: float_of_int_def float_round_def fp_round_def Let_def)

lemma dac_value_0:
  assumes "0 < n" "dac_value sin_impl n offset amplitude 0 = Inr v"
  shows "v = offset"
proof -
  have z: "fp_round 24 (- 149) 104 s 0 = Finite s 0 0" for s by (simp add: fp_round_def)
  have sv: "float_of_double (lib_sin sin_impl (sine_angle n 0)) = Finite False 0 0"
    unfolding sine_angle_0 [OF assms(1)] by (simp add: float_round_def z)
  show ?thesis
  proof (cases "float_of_int amplitude")
    case (Finite s m e)
    then have "fp_mul float_round (float_of_int amplitude) (Finite False 0 0) = Finite s 0 0"
      by (simp add: float_round_def z)
    with assms(2) show ?thesis
      by (auto simp: dac_value_def sv Let_def c_round_def split: if_splits)
  next
    case (Infinity s)
    with assms(2) show ?thesis by (simp add: dac_value_def sv Let_def)
  next
    case NaN
    with float_of_int_not_NaN show ?thesis by simp
  qed
qed

subsection \<open>The player\<close>

lemma offset_dac_eq: "offset_dac = 128"
  by code_simp

lemma amplitude_dac_eq: "amplitude_dac = 39"
  by code_simp

lemma V_REF_eq: "V_REF = Finite False 13841203 (- 22)"
  by code_simp

lemma V_OUT_OFFSET_eq: "V_OUT_OFFSET = Finite False 13841203 (- 23)"
  by code_simp

lemma V_OUT_PEAK_TO_PEAK_eq: "V_OUT_PEAK_TO_PEAK = Finite False 8388608 (- 23)"
  by code_simp

lemma c_mod_nonneg: "0 \<le> a \<Longrightarrow> 0 < b \<Longrightarrow> c_mod a b = a mod b"
proof -
  assume a: "0 \<le> a" and b: "0 < b"
  have "c_div a b = a div b"
  proof (cases "a = 0")
    case True
    then show ?thesis by (simp add: c_div_def)
  next
    case False
    with a b show ?thesis by (simp add: c_div_def)
  qed
  then show ?thesis by (simp add: c_mod_def minus_mult_div_eq_mod)
qed

lemma generateSineLUT_total:
  assumes "\<forall>x. sine_ok (sin_impl x)" "n < 2 ^ 31"
  shows "\<exists>lut. fill_sine sin_impl n offset_dac amplitude_dac (sineLUT s) = Inr lut
           \<and> length lut = length (sineLUT s)
           \<and> generateSineLUT sin_impl n s = Inr (s\<lparr>sineLUT := lut\<rparr>)"
proof -
  from fill_sine_total [OF assms, of 128 39 "sineLUT s"] obtain lut where
    l: "fill_sine sin_impl n 128 39 (sineLUT s) = Inr lut"
    by auto
  from fill_sine_length [OF l] l show ?thesis
    by (simp add: generateSineLUT_def offset_dac_eq amplitude_dac_eq)
qed

lemma generateSineLUT_frame:
  assumes "generateSineLUT sin_impl n s = Inr s1"
  shows "length (sineLUT s1) = length (sineLUT s) \<and> lutIndex s1 = lutIndex s \<and> dac s1 = dac s
         \<and> targetFrequency s1 = targetFrequency s \<and> updateFrequency s1 = updateFrequency s"
  using assms
  by (auto simp: generateSineLUT_def dest: fill_sine_length split: sum.splits)

lemma reconfigure_frame:
  "reconfigure n s = Inr s' \<Longrightarrow> lutIndex s' = lutIndex s \<and> sineLUT s' = sineLUT s"
  by (auto simp: reconfigure_def Let_def dacWrite_def split: option.splits if_splits)

lemma loop_frame:
  "loop n serial s = Inr s' \<Longrightarrow> lutIndex s' = lutIndex s \<and> sineLUT s' = sineLUT s"
  by (auto simp: loop_def Let_def dest!: reconfigure_frame split: option.splits if_splits)

lemma onTimer_step:
  assumes "cursor_ok n s"
  shows "onTimer n s = Inr (s\<lparr>dac := dac s @ [sineLUT s ! nat (lutIndex s)],
                               lutIndex := (lutIndex s + 1) mod n\<rparr>)"
proof -
  from assms have r: "0 \<le> lutIndex s" "lutIndex s < n" "int (length (sineLUT s)) = n"
    by (auto simp: cursor_ok_def)
  have "(lutIndex s + 1) mod n = (if n \<le> lutIndex s + 1 then 0 else lutIndex s + 1)"
  proof (cases "n \<le> lutIndex s + 1")
    case True
    with r have "lutIndex s + 1 = n" by simp
    then show ?thesis by simp
  next
    case False
    with r show ?thesis by simp
  qed
  with r show ?thesis
    by (simp add: onTimer_def dacWrite_def Let_def)
qed

lemma onTimer_cursor_ok:
  assumes "cursor_ok n s" "onTimer n s = Inr s'"
  shows "cursor_ok n s'"
proof -
  from assms(1) have "0 < n" by (auto simp: cursor_ok_def)
  then have "0 \<le> (lutIndex s + 1) mod n" "(lutIndex s + 1) mod n < n" by simp_all
  with assms show ?thesis
    unfolding onTimer_step [OF assms(1)] by (auto simp: cursor_ok_def)
qed

lemma step_cursor_ok:
  "cursor_ok n s \<Longrightarrow> step n ev s = Inr s' \<Longrightarrow> cursor_ok n s'"
proof (cases ev)
  case Tick
  assume "cursor_ok n s" "step n ev s = Inr s'"
  with Tick show ?thesis by (auto split: if_splits intro: onTimer_cursor_ok)
next
  case (Loop serial)
  assume "cursor_ok n s" "step n ev s = Inr s'"
  with Loop loop_frame [of n serial s s'] show ?thesis by (simp add: cursor_ok_def)
qed

lemma run_cursor_ok:
  "cursor_ok n s \<Longrightarrow> run n evs s = Inr s' \<Longrightarrow> cursor_ok n s'"
proof (induction evs arbitrary: s)
  case Nil
  then show ?case by simp
next
  case (Cons ev evs)
  then show ?case by (auto split: sum.splits dest: step_cursor_ok)
qed

lemma setup_cursor_ok:
  assumes "0 < n" "setup_sketch sin_impl n ok (globals n f) = Inr s"
  shows "cursor_ok n s"
proof (cases "generateSineLUT sin_impl n (globals n f)")
  case (Inl e)
  with assms(2) show ?thesis by (simp add: setup_sketch_def)
next
  case (Inr s1)
  from generateSineLUT_frame [OF Inr]
  have "length (sineLUT s1) = nat n" "lutIndex s1 = 0" by (simp_all add: globals_def)
  with assms Inr show ?thesis
    by (auto simp: setup_sketch_def Let_def cursor_ok_def
        timerAlarm_def timerDetachInterrupt_def split: if_splits option.splits)
qed

lemma period_nonpositive:
  "fp_le freq (float_of_int 0) \<Longrightarrow> calculateUpdatePeriod n freq = Some 0"
  by (simp add: calculateUpdatePeriod_def)

lemma period_100_256: "calculateUpdatePeriod 256 (float_of_int 100) = Some 39"
  by code_simp

lemma period_zero: "calculateUpdatePeriod n (float_of_int 0) = Some 0"
  by (simp add: period_nonpositive float_of_int_0)

lemma setup_blocking_total:
  assumes "\<forall>x. sine_ok (sin_impl x)" "n < 2 ^ 31"
  shows "\<exists>lut. setup_blocking sin_impl n = Inr \<lparr>lut_b = lut, index_b = 0, dac_b = [], waited_b = []\<rparr>
            \<and> length lut = nat n"
proof -
  have "\<exists>w. sine_sample_blocking sin_impl n j = Inr w" if "0 \<le> j" "j < n" for j
    using assms(1) that assms(2) by (rule sine_sample_blocking_ok)
  from fill_table_total [of 0 n "sine_sample_blocking sin_impl n" "replicate (nat n) 0", OF this]
  obtain lut where
    l: "fill_table (sine_sample_blocking sin_impl n) n 0 (replicate (nat n) 0) = Inr lut"
    by auto
  from fill_table_length [OF l] l show ?thesis
    by (simp add: setup_blocking_def)
qed

lemma setup_blocking_index:
  assumes "0 < n" "setup_blocking sin_impl n = Inr b"
  shows "0 \<le> index_b b \<and> index_b b < n \<and> length (lut_b b) = nat n"
  using assms
  by (auto simp: setup_blocking_def dest: fill_table_length split: sum.splits)

lemma loop_blocking_step:
  assumes "0 \<le> index_b b" "index_b b < n" "length (lut_b b) = nat n"
  shows "loop_blocking fr n b =
           (case delayMicros fr n of
              None \<Rightarrow> Inl UndefinedArithmetic
            | Some d \<Rightarrow> Inr (b\<lparr>dac_b := dac_b b @ [lut_b b ! nat (index_b b)],
                              index_b := (index_b b + 1) mod n,
                              waited_b := waited_b b @ [d]\<rparr>))"
proof -
  from assms have "c_mod (index_b b + 1) n = (index_b b + 1) mod n"
    by (intro c_mod_nonneg) simp_all
  with assms show ?thesis
    by (simp add: loop_blocking_def Let_def split: option.splits)
qed

lemma loop_blocking_index:
  assumes "0 \<le> index_b b \<and> index_b b < n \<and> length (lut_b b) = nat n" "loop_blocking fr n b = Inr b'"
  shows "0 \<le> index_b b' \<and> index_b b' < n \<and> length (lut_b b') = nat n"
proof -
  from assms(1) have n: "0 < n" and ok: "0 \<le> index_b b" "index_b b < n" "length (lut_b b) = nat n"
    by simp_all
  from n have "0 \<le> (index_b b + 1) mod n" "(index_b b + 1) mod n < n" by simp_all
  with assms(2) ok show ?thesis
    unfolding loop_blocking_step [OF ok] by (auto split: option.splits)
qed

lemma run_blocking_index:
  "0 \<le> index_b b \<and> index_b b < n \<and> length (lut_b b) = nat n \<Longrightarrow> run_blocking fr n k b = Inr b' \<Longrightarrow>
   0 \<le> index_b b' \<and> index_b b' < n \<and> length (lut_b b') = nat n"
proof (induction k arbitrary: b)
  case 0
  then show ?case by simp
next
  case (Suc k)
  show ?case
  proof (cases "loop_blocking fr n b")
    case (Inl f)
    with Suc.prems show ?thesis by simp
  next
    case (Inr b1)
    from loop_blocking_index [OF Suc.prems(1) Inr] Suc.IH [of b1] Suc.prems(2) Inr
    show ?thesis by simp
  qed
qed

lemma reconfigure_rest:
  assumes "calculateUpdatePeriod n (targetFrequency s) = Some 0"
  shows "reconfigure n s =
           Inr (s\<lparr>timer := timerDetachInterrupt (timer s), updatePeriodMicros := 0,
                   dac := dac s @ [128], updateFrequency := False\<rparr>)"
  using assms
  by (simp add: reconfigure_def Let_def timerDetachInterrupt_def dacWrite_def offset_dac_eq)

lemma step_rest:
  assumes "\<not> isr_attached (timer s)" "\<not> updateFrequency s" "keeps_rest n ev"
  shows "\<exists>s'. step n ev s = Inr s' \<and> \<not> isr_attached (timer s') \<and> \<not> updateFrequency s'
              \<and> dac s' = dac s @ (if accepted ev then [128] else [])"
proof (cases ev)
  case Tick
  with assms show ?thesis by simp
next
  case (Loop serial)
  show ?thesis
  proof (cases serial)
    case None
    with Loop assms show ?thesis by (simp add: loop_def)
  next
    case (Some f)
    show ?thesis
    proof (cases "fp_le (float_of_int 0) f")
      case True
      with assms(3) Loop Some have "calculateUpdatePeriod n f = Some 0" by simp
      then have "calculateUpdatePeriod n
                   (targetFrequency (s\<lparr>targetFrequency := f, updateFrequency := True\<rparr>)) = Some 0"
        by simp
      from reconfigure_rest [OF this] True Loop Some show ?thesis
        by (simp add: loop_def timerDetachInterrupt_def)
    next
      case False
      with Loop Some assms show ?thesis by (simp add: loop_def)
    qed
  qed
qed

lemma run_rest:
  "\<not> isr_attached (timer s) \<Longrightarrow> \<not> updateFrequency s \<Longrightarrow> \<forall>ev\<in>set evs. keeps_rest n ev \<Longrightarrow>
   \<exists>s'. run n evs s = Inr s' \<and> \<not> isr_attached (timer s') \<and> \<not> updateFrequency s'
        \<and> dac s' = dac s @ replicate (length (filter accepted evs)) 128"
proof (induction evs arbitrary: s)
  case Nil
  then show ?case by simp
next
  case (Cons ev evs)
  from Cons.prems have "keeps_rest n ev" by simp
  from step_rest [OF Cons.prems(1,2) this] obtain s1 where
    s1: "step n ev s = Inr s1" "\<not> isr_attached (timer s1)" "\<not> updateFrequency s1"
        "dac s1 = dac s @ (if accepted ev then [128] else [])"
    by blast
  from Cons.prems have "\<forall>ev\<in>set evs. keeps_rest n ev" by simp
  from Cons.IH [OF s1(2,3) this] obtain s' where
    s': "run n evs s1 = Inr s'" "\<not> isr_attached (timer s')" "\<not> updateFrequency s'"
        "dac s' = dac s1 @ replicate (length (filter accepted evs)) 128"
    by blast
  from s1 s' show ?case by (simp add: replicate_app_Cons_same)
qed

lemma spec_codes:
  "spec_offsetCode (valof V_OUT_OFFSET - valof V_OUT_PEAK_TO_PEAK / 2)
                   (valof V_OUT_OFFSET + valof V_OUT_PEAK_TO_PEAK / 2) (valof V_REF) = 128"
  "spec_amplitudeCode (valof V_OUT_OFFSET - valof V_OUT_PEAK_TO_PEAK / 2)
                   (valof V_OUT_OFFSET + valof V_OUT_PEAK_TO_PEAK / 2) (valof V_REF) = 39"
  by (simp_all add: spec_offsetCode_def spec_amplitudeCode_def V_REF_eq V_OUT_OFFSET_eq
      V_OUT_PEAK_TO_PEAK_eq c_round_def)

section \<open>The properties\<close>

text \<open>
  Claim C1. For every \<^verbatim>\<open>float\<close> frequency and every positive table size whose product
  exceeds 1000000, the period is exactly 1, never 0; so it is for the frequency \<open>+\<infinity>\<close>.
  The table size is an \<^verbatim>\<open>int\<close>, below \<open>2^31\<close>.
\<close>

theorem period_floor_is_one:
  assumes "0 < n" "n < 2 ^ 31" "1000000 < valof freq * real_of_int n" "is_float freq"
  shows "calculateUpdatePeriod n freq = Some 1 \<and> calculateUpdatePeriod n (Infinity False) = Some 1"
proof -
  from float_of_int_pos [OF assms(1,2)] obtain ms es where
    sz: "float_of_int n = Finite False ms es"
    and lo: "real_of_int n * (1 - 1 / 2 ^ 24) \<le> real_of_int ms * 2 powi es"
    by blast
  define vs where "vs = real_of_int ms * 2 powi es"
  have n1: "1 \<le> real_of_int n" using assms(1) by simp
  have vs: "real_of_int n * (1 - 1 / 2 ^ 24) \<le> vs" using lo by (simp add: vs_def)
  then have vs0: "0 < vs" using n1 by (simp add: field_simps)
  then have ms: "ms \<noteq> 0" by (auto simp: vs_def)
  have inf: "calculateUpdatePeriod n (Infinity False) = Some 1"
    using assms(1) ms
    by (simp add: calculateUpdatePeriod_def float_of_int_0 sz quotient_inf)
  have vf0: "0 < valof freq"
  proof (rule ccontr)
    assume "\<not> 0 < valof freq"
    then have "valof freq * real_of_int n \<le> 0" using n1 by (simp add: mult_le_0_iff)
    with assms(3) show False by simp
  qed
  have "\<exists>m ex. freq = Finite False m ex \<and> 0 < real_of_int m * 2 powi ex"
  proof (cases freq)
    case (Finite s m ex)
    have p: "0 < (2::real) powi ex" by simp
    from assms(4) Finite have "0 \<le> real_of_int m * 2 powi ex" by simp
    with vf0 Finite show ?thesis by (cases s) auto
  qed (use vf0 in auto)
  then obtain m ex where freq: "freq = Finite False m ex"
    and m0: "0 < real_of_int m * 2 powi ex"
    by blast
  define vf where "vf = real_of_int m * 2 powi ex"
  have vf: "0 < vf" "1000000 < vf * real_of_int n"
    using m0 assms(3) by (simp_all add: vf_def freq)
  define a where "a = vf * vs"
  have "vf * (real_of_int n * (1 - 1 / 2 ^ 24)) \<le> vf * vs"
    using vs vf(1) by (intro mult_left_mono) simp_all
  then have "(vf * real_of_int n) * (1 - 1 / 2 ^ 24) \<le> a" by (simp add: a_def mult.assoc)
  moreover have "1000000 * (1 - 1 / 2 ^ 24) \<le> (vf * real_of_int n) * (1 - 1 / 2 ^ 24)"
    using vf(2) by (intro mult_right_mono) simp_all
  ultimately have a: "999999 < a" by simp
  have "(2::real) powi 19 \<le> a" using a by simp
  then have "19 \<le> ilog2 a" by (rule ilog2_ge)
  then have nrm: "- 149 \<le> ilog2 a - (int 24 - 1)" by simp
  have a0: "0 < a" using a by simp
  have prod: "fp_mul float_round freq (float_of_int n) = fp_round 24 (- 149) 104 False a"
    by (simp add: freq sz float_round_def a_def vf_def vs_def)
  have guard: "\<not> fp_le freq (float_of_int 0)"
    using m0 by (simp add: freq float_of_int_0)
  have "uint64_of_double (fp_div double_round (double_lit 1000000)
          (fp_mul float_round freq (float_of_int n))) = Some 0
      \<or> uint64_of_double (fp_div double_round (double_lit 1000000)
          (fp_mul float_round freq (float_of_int n))) = Some 1"
  proof -
    from fp_round_cases [OF a0 _ refl, of 24 "- 149" 104 False]
    consider "fp_round 24 (- 149) 104 False a = Infinity False"
      | mp ep where "fp_round 24 (- 149) 104 False a = Finite False mp ep"
      by auto
    then show ?thesis
    proof cases
      case 1
      then show ?thesis by (simp add: prod quotient_inf)
    next
      case 2
      from fp_round_rel(2) [OF a0 _ nrm 2]
      have "a * (1 - 1 / 2 ^ 24) \<le> real_of_int mp * 2 powi ep" by simp
      moreover have "999999 * (1 - 1 / 2 ^ 24) \<le> a * (1 - 1 / 2 ^ 24)"
        using a by (intro mult_right_mono) simp_all
      ultimately have "500001 < real_of_int mp * 2 powi ep" by simp
      from quotient_small [OF this] show ?thesis by (simp add: prod 2)
    qed
  qed
  then have "calculateUpdatePeriod n freq = Some 1"
    using guard assms(1) by (auto simp: calculateUpdatePeriod_def)
  with inf show ?thesis by simp
qed

theorem period_floor_is_one_witness:
  "(0::int) < 256 \<and> (256::int) < 2 ^ 31 \<and> 1000000 < valof (float_of_int 20000) * real_of_int 256
   \<and> is_float (float_of_int 20000)
   \<and> calculateUpdatePeriod 256 (float_of_int 20000) = Some 1"
proof -
  have f: "float_of_int 20000 = Finite False 10240000 (- 9)" by code_simp
  have h: "1000000 < valof (float_of_int 20000) * real_of_int 256" by (simp add: f)
  have i: "is_float (float_of_int 20000)" by (simp add: f)
  from period_floor_is_one [OF _ _ h i] h i show ?thesis by simp
qed

text \<open>
  Claim C2, as amended. For every positive \<^verbatim>\<open>float\<close> frequency and every table size that
  is a power of two (as 256 and 64 are) such that the quotient \<open>1000000 / (freq * size)\<close> is
  at least 1 and below \<open>2^30\<close>, the period is the floor of that quotient. In particular the
  period of 100 Hz is 39 for 256 entries and 156 for 64 entries, which is also the delay of the
  blocking variant.
\<close>

theorem period_is_floor_pow2:
  assumes "is_float freq" "0 < valof freq" "n = 2 ^ j" "j \<le> 30"
    and "1 \<le> 1000000 / (valof freq * real_of_int n)"
    and "1000000 / (valof freq * real_of_int n) < 2 ^ 30"
  shows "\<exists>period. calculateUpdatePeriod n freq = Some period
           \<and> uint period = \<lfloor>1000000 / (valof freq * real_of_int n)\<rfloor>"
proof -
  have "\<exists>m ex. freq = Finite False m ex \<and> 0 < m \<and> m < 2 ^ 24 \<and> - 149 \<le> ex"
  proof (cases freq)
    case (Finite s m ex)
    have p: "0 < (2::real) powi ex" by simp
    from assms(1) Finite have m: "0 \<le> m" "m < 2 ^ 24" "- 149 \<le> ex" by simp_all
    then have "0 \<le> real_of_int m * 2 powi ex" by simp
    with assms(2) Finite have s: "\<not> s" by (cases s) auto
    with assms(2) Finite have "0 < real_of_int m * 2 powi ex" by simp
    then have "0 < m" using m(1) by (cases "m = 0") auto
    with Finite s m show ?thesis by simp
  qed (use assms(2) in auto)
  then obtain m ex where freq: "freq = Finite False m ex"
    and m: "0 < m" "m < 2 ^ 24" and ex: "- 149 \<le> ex"
    by blast
  define x where "x = ex + int j"
  define a where "a = real_of_int m * 2 powi x"
  have vn: "valof freq * real_of_int n = a"
    by (simp add: freq assms(3) a_def x_def power_int_add)
  have q: "1 \<le> 1000000 / a" "1000000 / a < 2 ^ 30" using assms(5,6) by (simp_all only: vn)
  have a0: "0 < a" using m(1) by (simp add: a_def)
  have a6: "a \<le> 1000000" using q(1) a0 by (simp add: field_simps)
  from float_of_int_pow2 [OF assms(4)] obtain ms es where
    sz: "float_of_int n = Finite False ms es" and szv: "real_of_int ms * 2 powi es = 2 ^ j"
    by (auto simp: assms(3))
  have "fp_mul float_round freq (float_of_int n) =
        float_round False ((real_of_int m * 2 powi ex) * (real_of_int ms * 2 powi es))"
    by (simp add: freq sz)
  also have "(real_of_int m * 2 powi ex) * (real_of_int ms * 2 powi es) = real_of_int m * 2 powi x"
    by (simp add: szv x_def power_int_add)
  finally have prod: "fp_mul float_round freq (float_of_int n) =
        float_round False (real_of_int m * 2 powi x)" .
  have "real_of_int m * 2 powi x < 2 powi 127" using a6 by (simp add: a_def)
  moreover have "- 149 \<le> x" using ex by (simp add: x_def)
  ultimately obtain mp ep where
    r: "float_round False (real_of_int m * 2 powi x) = Finite False mp ep"
    and rv: "real_of_int mp * 2 powi ep = real_of_int m * 2 powi x"
    using float_round_exact [OF m, of x] by blast
  define N where "N = \<lfloor>1000000 / a\<rfloor>"
  from quotient_floor [OF m rv q [unfolded a_def]]
  have c: "uint64_of_double (fp_div double_round (double_lit 1000000)
             (fp_mul float_round freq (float_of_int n))) = Some (word_of_int N)"
    by (simp add: prod r N_def a_def)
  have N1: "1 \<le> N" using q(1) by (simp add: N_def le_floor_iff)
  have "real_of_int N \<le> 1000000 / a" by (simp add: N_def)
  with q(2) have "real_of_int N < real_of_int (2 ^ 64)" by simp
  then have N64: "N < 2 ^ 64" by (simp only: of_int_less_iff)
  have u: "uint (word_of_int N :: 64 word) = N"
    using N1 N64 by (simp add: uint_word_of_int take_bit_int_eq_self)
  then have pos: "0 < (word_of_int N :: 64 word)"
    using N1 by (simp add: word_less_def)
  have "0 < real_of_int m * 2 powi ex" using m(1) by simp
  then have guard: "\<not> fp_le freq (float_of_int 0)"
    by (simp add: freq float_of_int_0)
  have npos: "\<not> n \<le> 0" by (simp add: assms(3))
  have "calculateUpdatePeriod n freq = Some (word_of_int N)"
    using guard npos pos by (simp add: calculateUpdatePeriod_def c)
  with u show ?thesis by (simp add: N_def vn)
qed

theorem period_is_floor_pow2_witness:
  "calculateUpdatePeriod 256 (float_of_int 100) = Some 39
   \<and> calculateUpdatePeriod 64 (float_of_int 100) = Some 156
   \<and> delayMicros 100 64 = Some 156"
proof -
  have f: "float_of_int 100 = Finite False 13107200 (- 17)" by code_simp
  have "\<exists>period. calculateUpdatePeriod 256 (float_of_int 100) = Some period
           \<and> uint period = \<lfloor>1000000 / (valof (float_of_int 100) * real_of_int 256)\<rfloor>"
    by (rule period_is_floor_pow2 [where j = 8]) (simp_all add: f)
  moreover have "\<exists>period. calculateUpdatePeriod 64 (float_of_int 100) = Some period
           \<and> uint period = \<lfloor>1000000 / (valof (float_of_int 100) * real_of_int 64)\<rfloor>"
    by (rule period_is_floor_pow2 [where j = 6]) (simp_all add: f)
  moreover have "\<lfloor>1000000 / (valof (float_of_int 100) * real_of_int 256)\<rfloor> = 39"
    "\<lfloor>1000000 / (valof (float_of_int 100) * real_of_int 64)\<rfloor> = 156"
    by (simp_all add: f)
  ultimately show ?thesis
    by (auto simp: word_uint_eq_iff delayMicros_def c_div_def)
qed

text \<open>
  Claim C2 as stated fails, twice. For the table size 256 and the frequency \<open>7 * 2^(-43)\<close>
  Hz the quotient rounds up in \<^verbatim>\<open>double\<close> and the period is one more than the floor. For
  the table size 3 and the frequency 166666.671875 Hz the \<^verbatim>\<open>float\<close> product rounds down
  to 500000 and the period is 2, the floor being 1.
\<close>

theorem period_floor_counterexamples:
  "is_float (Finite False 7 (- 43))
   \<and> \<lfloor>1000000 / (valof (Finite False 7 (- 43)) * real_of_int 256)\<rfloor> = 4908534052571428
   \<and> calculateUpdatePeriod 256 (Finite False 7 (- 43)) = Some 4908534052571429
   \<and> is_float (Finite False 10666667 (- 6))
   \<and> \<lfloor>1000000 / (valof (Finite False 10666667 (- 6)) * real_of_int 3)\<rfloor> = 1
   \<and> calculateUpdatePeriod 3 (Finite False 10666667 (- 6)) = Some 2"
proof -
  have "calculateUpdatePeriod 256 (Finite False 7 (- 43)) = Some 4908534052571429"
    by code_simp
  moreover have "calculateUpdatePeriod 3 (Finite False 10666667 (- 6)) = Some 2"
    by code_simp
  moreover have "\<lfloor>1000000 / (valof (Finite False 7 (- 43)) * real_of_int 256)\<rfloor> = 4908534052571428"
    by simp
  moreover have "\<lfloor>1000000 / (valof (Finite False 10666667 (- 6)) * real_of_int 3)\<rfloor> = 1"
    by simp
  ultimately show ?thesis by simp
qed

text \<open>
  Claim C3. The reconfiguration never changes the cursor: whatever the state (so also after
  any number of ticks) and whatever the frequency, \<^verbatim>\<open>lutIndex\<close> after the
  reconfiguration is \<^verbatim>\<open>lutIndex\<close> before it.
\<close>

theorem reconfigure_keeps_cursor:
  "reconfigure n (s\<lparr>targetFrequency := freq\<rparr>) = Inr s' \<Longrightarrow> lutIndex s' = lutIndex s"
  by (drule reconfigure_frame) simp

theorem reconfigure_keeps_cursor_witness:
  "\<exists>s'. reconfigure 256 ((globals 256 (float_of_int 0))
                   \<lparr>lutIndex := 17, targetFrequency := float_of_int 100\<rparr>) = Inr s'
     \<and> isr_attached (timer s') \<and> updatePeriodMicros s' = 39 \<and> lutIndex s' = 17"
proof -
  let ?s = "(globals 256 (float_of_int 0))\<lparr>lutIndex := 17\<rparr>"
  obtain s' where s': "reconfigure 256 (?s\<lparr>targetFrequency := float_of_int 100\<rparr>) = Inr s'"
    and t: "isr_attached (timer s')" "updatePeriodMicros s' = 39"
    by (simp add: reconfigure_def Let_def period_100_256 timerAttachInterrupt_def)
  from reconfigure_keeps_cursor [OF s'] s' t show ?thesis by simp
qed

text \<open>
  Claim C4. For every table size (an \<^verbatim>\<open>int\<close>, below \<open>2^31\<close>) and every pair of codes in
  \<open>[0, 255]\<close> for offset and amplitude, whatever finite sine of magnitude at most 1 the C
  library returns, the loop of \<^verbatim>\<open>generateSineLUT\<close> runs through without an undefined
  conversion, and each entry it stores is the \<^verbatim>\<open>int dac_value\<close> of the code (the offset
  plus the rounded \<^verbatim>\<open>float\<close> product) clamped into \<open>[0, 255]\<close>: neither wrapped around
  nor rejected.
\<close>

theorem lut_entries_clamped:
  assumes "\<forall>x. sine_ok (sin_impl x)"
    and "0 \<le> i" "i < n" "n < 2 ^ 31" "length lut = nat n"
    and "0 \<le> offset" "offset \<le> 255" "0 \<le> amplitude" "amplitude \<le> 255"
  shows "\<exists>lut' v. fill_sine sin_impl n offset amplitude lut = Inr lut'
           \<and> length lut' = nat n
           \<and> dac_value sin_impl n offset amplitude i = Inr v
           \<and> uint (lut' ! nat i) = max 0 (min 255 v)
           \<and> 0 \<le> uint (lut' ! nat i) \<and> uint (lut' ! nat i) \<le> 255"
proof -
  from fill_sine_total [OF assms(1,4,6,7,8,9), of lut] obtain lut' where
    l: "fill_sine sin_impl n offset amplitude lut = Inr lut'"
    by blast
  from sine_sample_ok [OF assms(1,2,3,4,6,7,8,9)] obtain v where
    v: "dac_value sin_impl n offset amplitude i = Inr v"
    and s: "sine_sample sin_impl n offset amplitude i = Inr (clamp_byte v)"
    by blast
  from fill_sine_nth [OF l assms(2,3,5)] s have "lut' ! nat i = clamp_byte v" by simp
  then have "uint (lut' ! nat i) = max 0 (min 255 v)" by (simp add: uint_clamp_byte)
  with l v fill_sine_length [OF l] assms(5) show ?thesis by auto
qed

theorem lut_entries_clamped_witness:
  "\<exists>lut' v. fill_sine sin_nearest 4 250 100 [0, 0, 0, 0] = Inr lut'
           \<and> length lut' = 4
           \<and> dac_value sin_nearest 4 250 100 1 = Inr v
           \<and> uint (lut' ! 1) = max 0 (min 255 v)"
  using lut_entries_clamped [of sin_nearest 1 4 "[0, 0, 0, 0]" 250 100]
  by (simp add: sin_nearest_ok) blast

text \<open>
  Claim C6. In every state that the sketch reaches after \<^verbatim>\<open>setup\<close>, the interrupt
  routine writes the table entry at the cursor to the output and leaves the cursor at
  \<open>(cursor + 1) mod size\<close>, again an index of the table. The same holds for each pass of
  the blocking variant's \<^verbatim>\<open>loop\<close>; its closing delay is undefined in C when
  \<^verbatim>\<open>FREQ_HZ * LUT_SIZE\<close> is 0 or overflows.
\<close>

theorem tick_emits_then_advances:
  assumes "0 < n"
    and "setup_sketch sin_impl n True (globals n freq) = Inr s0" and "run n evs s0 = Inr s"
    and "0 < nb" and "setup_blocking sin_b nb = Inr b0" and "run_blocking fr nb k b0 = Inr b"
  shows "onTimer n s = Inr (s\<lparr>dac := dac s @ [sineLUT s ! nat (lutIndex s)],
                               lutIndex := (lutIndex s + 1) mod n\<rparr>)
       \<and> nat (lutIndex s) < length (sineLUT s)
       \<and> 0 \<le> (lutIndex s + 1) mod n \<and> (lutIndex s + 1) mod n < n
       \<and> loop_blocking fr nb b =
           (case delayMicros fr nb of
              None \<Rightarrow> Inl UndefinedArithmetic
            | Some d \<Rightarrow> Inr (b\<lparr>dac_b := dac_b b @ [lut_b b ! nat (index_b b)],
                              index_b := (index_b b + 1) mod nb,
                              waited_b := waited_b b @ [d]\<rparr>))
       \<and> nat (index_b b) < length (lut_b b)
       \<and> 0 \<le> (index_b b + 1) mod nb \<and> (index_b b + 1) mod nb < nb"
proof -
  have ok: "cursor_ok n s"
    using setup_cursor_ok [OF assms(1,2)] assms(3) by (rule run_cursor_ok)
  from run_blocking_index [OF setup_blocking_index [OF assms(4,5)] assms(6)]
  have okb: "0 \<le> index_b b" "index_b b < nb" "length (lut_b b) = nat nb" by simp_all
  from ok have "nat (lutIndex s) < length (sineLUT s)"
    by (auto simp: cursor_ok_def)
  moreover from okb have "nat (index_b b) < length (lut_b b)" by simp
  moreover from assms(1) have "0 \<le> (lutIndex s + 1) mod n" "(lutIndex s + 1) mod n < n" by simp_all
  moreover from assms(4) have "0 \<le> (index_b b + 1) mod nb" "(index_b b + 1) mod nb < nb" by simp_all
  ultimately show ?thesis
    using onTimer_step [OF ok] loop_blocking_step [OF okb] by simp
qed

theorem tick_emits_then_advances_witness:
  "\<exists>s0 s b0 b. setup_sketch sin_nearest 256 True (globals 256 (float_of_int 100)) = Inr s0
     \<and> run 256 [Tick, Tick, Loop None] s0 = Inr s
     \<and> setup_blocking sin_nearest 64 = Inr b0
     \<and> run_blocking 100 64 2 b0 = Inr b
     \<and> lutIndex s = 2 \<and> index_b b = 2
     \<and> onTimer 256 s = Inr (s\<lparr>dac := dac s @ [sineLUT s ! 2], lutIndex := 3\<rparr>)
     \<and> loop_blocking 100 64 b =
           Inr (b\<lparr>dac_b := dac_b b @ [lut_b b ! 2], index_b := 3,
                   waited_b := waited_b b @ [156]\<rparr>)"
proof -
  have d: "delayMicros 100 64 = Some 156"
    by (simp add: delayMicros_def c_div_def Let_def)
  from generateSineLUT_total [of sin_nearest 256 "globals 256 (float_of_int 100)"]
  obtain lut where lut: "length lut = 256"
    and g: "generateSineLUT sin_nearest 256 (globals 256 (float_of_int 100)) =
            Inr ((globals 256 (float_of_int 100))\<lparr>sineLUT := lut\<rparr>)"
    by (auto simp: sin_nearest_ok globals_def)
  define s0 where "s0 = (globals 256 (float_of_int 100))
      \<lparr>sineLUT := lut, timer := timerAlarm (timerAttachInterrupt timerBegin) 39 True 0,
       updatePeriodMicros := 39\<rparr>"
  have s0: "setup_sketch sin_nearest 256 True (globals 256 (float_of_int 100)) = Inr s0"
    unfolding setup_sketch_def g
    by (simp add: Let_def globals_def period_100_256 s0_def)
  have len: "length (sineLUT s0) = 256" "lutIndex s0 = 0" "isr_attached (timer s0)"
      "alarm_enabled (timer s0)" "\<not> updateFrequency s0"
    by (simp_all add: s0_def lut globals_def timerAlarm_def timerAttachInterrupt_def timerBegin_def)
  obtain s where s: "run 256 [Tick, Tick, Loop None] s0 = Inr s" and i: "lutIndex s = 2"
    using len by (simp add: onTimer_def dacWrite_def Let_def loop_def)
  from setup_blocking_total [of sin_nearest 64] obtain lb where lb: "length lb = 64"
    and b0: "setup_blocking sin_nearest 64 = Inr \<lparr>lut_b = lb, index_b = 0, dac_b = [], waited_b = []\<rparr>"
    by (auto simp: sin_nearest_ok)
  define b0 where "b0 = \<lparr>lut_b = lb, index_b = 0, dac_b = [], waited_b = []\<rparr>"
  have c1: "c_mod 1 64 = 1" "c_mod 2 64 = 2" by (simp_all add: c_mod_def c_div_def)
  obtain b where b: "run_blocking 100 64 2 b0 = Inr b" and ib: "index_b b = 2"
    using lb by (simp add: numeral_2_eq_2 loop_blocking_def b0_def d Let_def c1)
  from tick_emits_then_advances [OF _ s0 s _ b0 [folded b0_def] b] i ib s0 s b b0 [folded b0_def]
  show ?thesis
    by (simp add: d)
qed

text \<open>
  Claim C7. For every table size the period of the frequency zero (of either sign) is 0, and
  so is the period of every negative frequency, finite or infinite.
\<close>

theorem period_zero_or_negative:
  "calculateUpdatePeriod n (Finite s 0 e) = Some 0 \<and>
   (valof freq < 0 \<longrightarrow> calculateUpdatePeriod n freq = Some 0) \<and>
   calculateUpdatePeriod n (Infinity True) = Some 0"
proof -
  have "valof freq < 0 \<Longrightarrow> fp_le freq (Finite False 0 0)"
    by (cases freq) (auto split: if_splits)
  then show ?thesis
    by (auto simp: period_nonpositive float_of_int_0)
qed

theorem period_zero_or_negative_witness:
  "valof (Finite True 5 (- 1)) < 0 \<and> calculateUpdatePeriod 256 (Finite True 5 (- 1)) = Some 0"
  using period_zero_or_negative [of 256 False 0 "Finite True 5 (- 1)"] by simp

text \<open>
  Claim C8, as amended. When the reconfiguration computes the period 0 it leaves the routine
  detached, does not program the alarm, and writes the offset code 128 exactly once. After
  that, ticks, passes of \<^verbatim>\<open>loop\<close> without input and passes with a refused input write
  nothing; each further accepted frequency with period 0 writes the code once more.
\<close>

theorem rest_after_zero_period:
  assumes "calculateUpdatePeriod n (targetFrequency s) = Some 0"
    and "\<forall>ev\<in>set evs. keeps_rest n ev"
  shows "\<exists>s' s''. reconfigure n s = Inr s'
          \<and> timer s' = timerDetachInterrupt (timer s)
          \<and> dac s' = dac s @ [128]
          \<and> run n evs s' = Inr s''
          \<and> \<not> isr_attached (timer s'')
          \<and> dac s'' = dac s' @ replicate (length (filter accepted evs)) 128"
proof -
  let ?s' = "s\<lparr>timer := timerDetachInterrupt (timer s), updatePeriodMicros := 0,
                dac := dac s @ [128], updateFrequency := False\<rparr>"
  have r: "reconfigure n s = Inr ?s'" by (rule reconfigure_rest [OF assms(1)])
  have "\<not> isr_attached (timer ?s')" "\<not> updateFrequency ?s'"
    by (simp_all add: timerDetachInterrupt_def)
  from run_rest [OF this assms(2)] r show ?thesis by auto
qed

theorem rest_after_zero_period_witness:
  "calculateUpdatePeriod 256 (targetFrequency (globals 256 (float_of_int 0))) = Some 0
   \<and> list_all (keeps_rest 256) [Tick, Loop None, Loop (Some (Finite True 1 0)), Tick]
   \<and> writes (and_then (reconfigure 256 (globals 256 (float_of_int 0)))
                       (run 256 [Tick, Loop None, Loop (Some (Finite True 1 0)), Tick])) = Some [128]"
proof -
  have h1: "calculateUpdatePeriod 256 (targetFrequency (globals 256 (float_of_int 0))) = Some 0"
    by (simp add: globals_def period_zero)
  have h2: "\<forall>ev\<in>set [Tick, Loop None, Loop (Some (Finite True 1 0)), Tick]. keeps_rest 256 ev"
    by (simp add: float_of_int_0)
  have h3: "list_all (keeps_rest 256) [Tick, Loop None, Loop (Some (Finite True 1 0)), Tick]"
    by (simp add: float_of_int_0)
  from rest_after_zero_period [OF h1 h2] h1 h3 show ?thesis
    by (auto simp: writes_def and_then_def globals_def float_of_int_0)
qed

text \<open>
  Claim C8 as stated fails: after a reconfiguration to the frequency 0, a second line with the
  frequency 0 (no positive frequency was supplied) writes the code a second time.
\<close>

theorem second_zero_writes_again:
  "calculateUpdatePeriod 256 (float_of_int 0) = Some 0
   \<and> writes (reconfigure 256 (globals 256 (float_of_int 0))) = Some [128]
   \<and> writes (and_then (reconfigure 256 (globals 256 (float_of_int 0)))
                       (run 256 [Loop (Some (float_of_int 0))])) = Some [128, 128]"
proof -
  have g: "calculateUpdatePeriod 256 (targetFrequency (globals 256 (float_of_int 0))) = Some 0"
    by (simp add: globals_def period_zero)
  have z: "fp_le (float_of_int 0) (float_of_int 0)"
    by (simp add: float_of_int_0)
  show ?thesis
    by (simp add: period_zero reconfigure_rest [OF g] writes_def and_then_def loop_def z
        reconfigure_rest globals_def)
qed




text \<open>
  Claim C10. For every table size and every offset code in \<open>[0, 255]\<close>, whatever the
  amplitude and whatever the library's sine, every table that the loop of
  \<^verbatim>\<open>generateSineLUT\<close> builds holds at index 0 the offset code itself, hence a value
  within one code of it: the angle at index 0 is \<open>+0\<close>, whose sine is \<open>+0\<close>.
\<close>

theorem sample_zero_is_offset:
  assumes "0 < n" "length lut = nat n" "0 \<le> offset" "offset \<le> 255"
    and "fill_sine sin_impl n offset amplitude lut = Inr lut'"
  shows "uint (lut' ! 0) = offset \<and> \<bar>uint (lut' ! 0) - offset\<bar> \<le> 1"
proof -
  from fill_sine_nth [OF assms(5) _ assms(1,2)]
  have s: "sine_sample sin_impl n offset amplitude 0 = Inr (lut' ! 0)" by simp
  then obtain v where v: "dac_value sin_impl n offset amplitude 0 = Inr v"
    and w: "lut' ! 0 = clamp_byte v"
    by (auto simp: sine_sample_def split: sum.splits)
  from dac_value_0 [OF assms(1) v] have "v = offset" .
  with w assms(3,4) show ?thesis by (simp add: uint_clamp_byte)
qed

theorem sample_zero_is_offset_witness:
  "\<exists>s. generateSineLUT sin_nearest 256 (globals 256 (float_of_int 100)) = Inr s
      \<and> uint (sineLUT s ! 0) = 128"
proof -
  from generateSineLUT_total [of sin_nearest 256 "globals 256 (float_of_int 100)"]
  obtain lut where
    f: "fill_sine sin_nearest 256 offset_dac amplitude_dac
          (sineLUT (globals 256 (float_of_int 100))) = Inr lut"
    and g: "generateSineLUT sin_nearest 256 (globals 256 (float_of_int 100)) =
            Inr ((globals 256 (float_of_int 100))\<lparr>sineLUT := lut\<rparr>)"
    by (auto simp: sin_nearest_ok)
  from sample_zero_is_offset [OF _ _ _ _ f [unfolded offset_dac_eq amplitude_dac_eq]] g
  show ?thesis by (simp add: globals_def)
qed

end
